theory Spec2Isabelle
  imports Complex_Main "HOL-Library.AList" "HOL-Library.Sublist"
begin

section \<open>JavaScript values\<close>

text \<open>
  The configuration loader works on the values a YAML document parses to and on the
  strings of the process environment. A string is a list of characters; one \<^typ>\<open>char\<close>
  stands for one UTF-16 code unit below 256, so \<^const>\<open>length\<close> is the \<open>length\<close>
  property of such a string. An object is the list of its own enumerable properties; a
  property is looked up by the first entry of its key, and a new property is added at
  the end. The runtime enumerates the keys that are array indices before the others,
  whenever they were added; the list keeps them where they were added, and the
  properties of objects are stated by key.
\<close>

datatype jsnum = Fin rat | NaN | PosInf | NegInf

datatype jsval =
    JUndefined
  | JNull
  | JBool bool
  | JNum jsnum
  | JStr string
  | JArr "jsval list"
  | JObj "(string \<times> jsval) list"

text \<open>\<open>typeof v === 'object'\<close>: true of \<open>null\<close> and of arrays as well.\<close>

fun typeof_object :: "jsval \<Rightarrow> bool" where
  "typeof_object JNull = True"
| "typeof_object (JArr xs) = True"
| "typeof_object (JObj kv) = True"
| "typeof_object v = False"

text \<open>\<open>Number.isInteger\<close>.\<close>

fun isInteger :: "jsnum \<Rightarrow> bool" where
  "isInteger (Fin r) = (of_int \<lfloor>r\<rfloor> = r)"
| "isInteger n = False"

text \<open>\<open>Boolean(v)\<close>: the truthiness of a value.\<close>

fun Boolean :: "jsval \<Rightarrow> bool" where
  "Boolean JUndefined = False"
| "Boolean JNull = False"
| "Boolean (JBool b) = b"
| "Boolean (JNum n) = (n \<noteq> Fin 0 \<and> n \<noteq> NaN)"
| "Boolean (JStr s) = (s \<noteq> [])"
| "Boolean (JArr xs) = True"
| "Boolean (JObj kv) = True"

text \<open>The decimal name of an array index, and the own properties of a value.\<close>

definition digit_char :: "nat \<Rightarrow> char" where
  "digit_char n = ''0123456789'' ! n"

fun index_name :: "nat \<Rightarrow> string" where
  "index_name n = (if n < 10 then [digit_char n] else index_name (n div 10) @ [digit_char (n mod 10)])"

declare index_name.simps [simp del]

fun index_entries :: "nat \<Rightarrow> jsval list \<Rightarrow> (string \<times> jsval) list" where
  "index_entries i [] = []"
| "index_entries i (x # xs) = (index_name i, x) # index_entries (Suc i) xs"

fun own_entries :: "jsval \<Rightarrow> (string \<times> jsval) list" where
  "own_entries (JObj kv) = kv"
| "own_entries (JArr xs) = index_entries 0 xs"
| "own_entries (JStr s) = index_entries 0 (map (\<lambda>c. JStr [c]) s)"
| "own_entries v = []"

text \<open>\<open>v[k]\<close> on an object: \<open>undefined\<close> when the key is absent.\<close>

definition get_prop :: "(string \<times> jsval) list \<Rightarrow> string \<Rightarrow> jsval" where
  "get_prop kv k = (case map_of kv k of None \<Rightarrow> JUndefined | Some v \<Rightarrow> v)"

text \<open>\<open>v == null\<close>.\<close>

fun loose_null :: "jsval \<Rightarrow> bool" where
  "loose_null JUndefined = True"
| "loose_null JNull = True"
| "loose_null v = False"

text \<open>Reading and writing a property of a value.\<close>

definition field :: "jsval \<Rightarrow> string \<Rightarrow> jsval" where
  "field v k = get_prop (own_entries v) k"

definition set_field :: "jsval \<Rightarrow> string \<Rightarrow> jsval \<Rightarrow> jsval" where
  "set_field v k x = JObj (AList.update k x (own_entries v))"

text \<open>
  The names of the properties that an object inherits from \<open>Object.prototype\<close>. The
  operator \<open>in\<close> and a read \<open>v[k]\<close> find them on every object that has no own property
  of the name, the object \<open>process.env\<close> included.
\<close>

definition object_prototype_names :: "string list" where
  "object_prototype_names =
     [''constructor'', ''__defineGetter__'', ''__defineSetter__'', ''hasOwnProperty'',
      ''__lookupGetter__'', ''__lookupSetter__'', ''isPrototypeOf'', ''propertyIsEnumerable'',
      ''toString'', ''valueOf'', ''__proto__'', ''toLocaleString'']"

section \<open>The schema library\<close>

text \<open>
  The schemas of \<^verbatim>\<open>schema.ts\<close> are values of the validation library \<^verbatim>\<open>arktype\<close>. The
  part of the library they use is embedded as a datatype of types and an interpreter.
  Three things the library or the runtime computes on strings are parameters:
  the keywords \<^verbatim>\<open>string.ip\<close> and \<^verbatim>\<open>string.url\<close>, and \<open>Number(s)\<close> of a string.
\<close>

record arklib =
  string_ip :: "string \<Rightarrow> bool"
  string_url :: "string \<Rightarrow> bool"
  Number_of_string :: "string \<Rightarrow> jsnum"

text \<open>What a structure does with a key it does not declare.\<close>

datatype undeclared = Ignore | Delete | Reject

text \<open>
  The functions given to \<^verbatim>\<open>.pipe\<close> in \<^verbatim>\<open>schema.ts\<close>, one constructor per function,
  named after the schema or field it is piped from.
\<close>

datatype morphfn =
    StringToBool
  | PortNumber
  | CookieSecret
  | ServerSecrets
  | OidcSecrets
  | HeadscaleUrl
  | PartialPortNumber
  | PartialHeadscaleUrl

datatype propkind = Required | Optional | Default jsval

datatype ty =
    TString
  | TStringIp
  | TStringUrl
  | TNull
  | TBoolean
  | TInteger
  | TUnit string
  | TUnion ty ty
  | TObject "(string \<times> propkind \<times> ty) list" undeclared
  | TPipe ty morphfn

datatype problem = Missing | WrongType | UndeclaredKey

type_synonym arkerror = "string list \<times> problem"

definition at_key :: "string \<Rightarrow> arkerror \<Rightarrow> arkerror" where
  "at_key k e = (k # fst e, snd e)"

definition mismatch :: "bool \<Rightarrow> arkerror list" where
  "mismatch ok = (if ok then [] else [([], WrongType)])"

definition undeclared_errors ::
  "(string \<times> propkind \<times> ty) list \<Rightarrow> (string \<times> jsval) list \<Rightarrow> arkerror list" where
  "undeclared_errors props kv =
     map (\<lambda>k. ([k], UndeclaredKey)) (filter (\<lambda>k. k \<notin> set (map fst props)) (map fst kv))"

text \<open>
  The first pass of a validation: the errors of a value against a type. No function
  given to \<^verbatim>\<open>.pipe\<close> runs in this pass; a piped type checks its input type. A
  structure takes every value that is an object; an array is one, with its indices as
  own keys. The errors are listed in the order of the declarations; the library keeps
  the properties of a structure in an order of its own, so its list can have the same
  errors in another order.
\<close>

fun check :: "arklib \<Rightarrow> ty \<Rightarrow> jsval \<Rightarrow> arkerror list"
  and check_props ::
    "arklib \<Rightarrow> (string \<times> propkind \<times> ty) list \<Rightarrow> (string \<times> jsval) list \<Rightarrow> arkerror list"
where
  "check L TString v = mismatch (case v of JStr s \<Rightarrow> True | _ \<Rightarrow> False)"
| "check L TStringIp v = mismatch (case v of JStr s \<Rightarrow> string_ip L s | _ \<Rightarrow> False)"
| "check L TStringUrl v = mismatch (case v of JStr s \<Rightarrow> string_url L s | _ \<Rightarrow> False)"
| "check L TNull v = mismatch (v = JNull)"
| "check L TBoolean v = mismatch (case v of JBool b \<Rightarrow> True | _ \<Rightarrow> False)"
| "check L TInteger v = mismatch (case v of JNum n \<Rightarrow> isInteger n | _ \<Rightarrow> False)"
| "check L (TUnit u) v = mismatch (v = JStr u)"
| "check L (TUnion a b) v = mismatch (check L a v = [] \<or> check L b v = [])"
| "check L (TPipe t f) v = check L t v"
| "check L (TObject props u) v =
     (case v of
        JObj kv \<Rightarrow> check_props L props kv @ (if u = Reject then undeclared_errors props kv else [])
      | JArr xs \<Rightarrow>
          check_props L props (index_entries 0 xs)
            @ (if u = Reject then undeclared_errors props (index_entries 0 xs) else [])
      | _ \<Rightarrow> [([], WrongType)])"
| "check_props L [] kv = []"
| "check_props L (p # ps) kv =
     (case map_of kv (fst p) of
        None \<Rightarrow> (if fst (snd p) = Required then [([fst p], Missing)] else [])
      | Some v \<Rightarrow> map (at_key (fst p)) (check L (snd (snd p)) v))
     @ check_props L ps kv"

text \<open>
  The functions given to \<^verbatim>\<open>.pipe\<close>; \<open>Inl\<close> is the message of a thrown \<open>Error\<close>. Each
  runs on a value of its input type only; \<open>Number\<close> is given for the values that type
  admits and for the other primitives.
\<close>

definition endsWith_slash :: "string \<Rightarrow> bool" where
  "endsWith_slash s = (s \<noteq> [] \<and> last s = CHR ''/'')"

fun Number :: "arklib \<Rightarrow> jsval \<Rightarrow> jsnum" where
  "Number L (JNum n) = n"
| "Number L (JStr s) = Number_of_string L s"
| "Number L (JBool b) = Fin (if b then 1 else 0)"
| "Number L JNull = Fin 0"
| "Number L v = NaN"

fun strip_slash :: "jsval \<Rightarrow> jsval" where
  "strip_slash (JStr s) = (if endsWith_slash s then JStr (butlast s) else JStr s)"
| "strip_slash v = v"

fun apply_morph :: "arklib \<Rightarrow> morphfn \<Rightarrow> jsval \<Rightarrow> string + jsval" where
  "apply_morph L StringToBool v = Inr (JBool (Boolean v))"
| "apply_morph L PortNumber v = Inr (JNum (Number L v))"
| "apply_morph L CookieSecret v =
     (case v of
        JStr s \<Rightarrow>
          if length s \<noteq> 32 then Inl ''cookie_secret must be exactly 32 characters long''
          else Inr v
      | _ \<Rightarrow> Inr v)"
| "apply_morph L ServerSecrets v =
     (if loose_null (get_prop (own_entries v) ''cookie_secret'')
          = loose_null (get_prop (own_entries v) ''cookie_secret_path'')
      then Inl ''Must specify either cookie_secret or cookie_secret_path, but not both''
      else Inr v)"
| "apply_morph L OidcSecrets v =
     (if loose_null (get_prop (own_entries v) ''client_secret'')
          = loose_null (get_prop (own_entries v) ''client_secret_path'')
      then Inl ''Must specify either client_secret or client_secret_path, but not both''
      else if loose_null (get_prop (own_entries v) ''headscale_api_key'')
          = loose_null (get_prop (own_entries v) ''headscale_api_key_path'')
      then Inl ''Must specify either headscale_api_key or headscale_api_key_path, but not both''
      else Inr v)"
| "apply_morph L HeadscaleUrl v = Inr (strip_slash v)"
| "apply_morph L PartialPortNumber v = (if v = JUndefined then Inr v else Inr (JNum (Number L v)))"
| "apply_morph L PartialHeadscaleUrl v = (if v = JUndefined then Inr v else Inr (strip_slash v))"

text \<open>
  The second pass, run on a value without errors: undeclared keys of a structure that
  deletes them are removed, the piped functions of the properties run innermost first,
  absent properties with a default get it, and last the function piped from the
  structure itself runs. The first function that throws ends the pass. An array that
  the pass changes is kept as the object of its own properties. Properties are taken
  in the order of the declarations, which decides where a default is added among the
  keys and which exception is thrown when several functions would throw; the order of
  the library can differ.
\<close>

definition delete_undeclared ::
  "(string \<times> propkind \<times> ty) list \<Rightarrow> undeclared \<Rightarrow> (string \<times> jsval) list \<Rightarrow> (string \<times> jsval) list" where
  "delete_undeclared props u kv =
     (if u = Delete then filter (\<lambda>e. fst e \<in> set (map fst props)) kv else kv)"

fun morph :: "arklib \<Rightarrow> ty \<Rightarrow> jsval \<Rightarrow> string + jsval"
  and morph_props ::
    "arklib \<Rightarrow> (string \<times> propkind \<times> ty) list \<Rightarrow> (string \<times> jsval) list
       \<Rightarrow> string + (string \<times> jsval) list"
where
  "morph L (TPipe t f) v =
     (case morph L t v of Inl e \<Rightarrow> Inl e | Inr v' \<Rightarrow> apply_morph L f v')"
| "morph L (TUnion a b) v = (if check L a v = [] then morph L a v else morph L b v)"
| "morph L (TObject props u) v =
     (if typeof_object v \<and> v \<noteq> JNull then
        (case morph_props L props (delete_undeclared props u (own_entries v)) of
           Inl e \<Rightarrow> Inl e
         | Inr kv' \<Rightarrow> Inr (if kv' = own_entries v then v else JObj kv'))
      else Inr v)"
| "morph L TString v = Inr v"
| "morph L TStringIp v = Inr v"
| "morph L TStringUrl v = Inr v"
| "morph L TNull v = Inr v"
| "morph L TBoolean v = Inr v"
| "morph L TInteger v = Inr v"
| "morph L (TUnit u) v = Inr v"
| "morph_props L [] kv = Inr kv"
| "morph_props L (p # ps) kv =
     (case map_of kv (fst p) of
        None \<Rightarrow>
          (case fst (snd p) of
             Default d \<Rightarrow> morph_props L ps (AList.update (fst p) d kv)
           | _ \<Rightarrow> morph_props L ps kv)
      | Some v \<Rightarrow>
          (case morph L (snd (snd p)) v of
             Inl e \<Rightarrow> Inl e
           | Inr v' \<Rightarrow> morph_props L ps (AList.update (fst p) v' kv)))"

text \<open>
  The second pass on a value with errors. The library still runs the functions it has
  queued, leaving out those at a path that an error affects: a path with an error at
  it, above it or below it. So a part of the value without errors gets its whole
  second pass unless an error sits above it; a part with an error at its own path gets
  none of it; and in a part with errors only below its path, the functions of the part
  itself and what the structure does with defaults and undeclared keys are left out,
  and the pass goes on in its properties. An error of a union sits at the path of the
  union.
\<close>

fun morph_unaffected :: "arklib \<Rightarrow> ty \<Rightarrow> jsval \<Rightarrow> string + jsval"
  and morph_unaffected_props ::
    "arklib \<Rightarrow> (string \<times> propkind \<times> ty) list \<Rightarrow> (string \<times> jsval) list
       \<Rightarrow> string + (string \<times> jsval) list"
where
  "morph_unaffected L (TPipe t f) v =
     (if check L t v = [] then morph L (TPipe t f) v
      else if [] \<in> fst ` set (check L t v) then Inr v
      else morph_unaffected L t v)"
| "morph_unaffected L (TObject props u) v =
     (if check L (TObject props u) v = [] then morph L (TObject props u) v
      else if [] \<in> fst ` set (check L (TObject props u) v) then Inr v
      else
        (case morph_unaffected_props L props (own_entries v) of
           Inl e \<Rightarrow> Inl e
         | Inr kv' \<Rightarrow> Inr (if kv' = own_entries v then v else JObj kv')))"
| "morph_unaffected L t v = (if check L t v = [] then morph L t v else Inr v)"
| "morph_unaffected_props L [] kv = Inr kv"
| "morph_unaffected_props L (p # ps) kv =
     (case map_of kv (fst p) of
        None \<Rightarrow> morph_unaffected_props L ps kv
      | Some v \<Rightarrow>
          (case morph_unaffected L (snd (snd p)) v of
             Inl e \<Rightarrow> Inl e
           | Inr v' \<Rightarrow> morph_unaffected_props L ps (AList.update (fst p) v' kv)))"

text \<open>
  The result of calling a type on a value: the morphed value, the list of errors
  (\<^verbatim>\<open>type.errors\<close>), or an exception thrown by a piped function, which the library
  does not catch, whether the value has errors or not.
\<close>

datatype validation = Ok jsval | Errors "arkerror list" | Throws string

definition validate :: "arklib \<Rightarrow> ty \<Rightarrow> jsval \<Rightarrow> validation" where
  "validate L t v =
     (case check L t v of
        [] \<Rightarrow> (case morph L t v of Inl e \<Rightarrow> Throws e | Inr out \<Rightarrow> Ok out)
      | e # es \<Rightarrow>
          (case morph_unaffected L t v of Inl m \<Rightarrow> Throws m | Inr out \<Rightarrow> Errors (e # es)))"

text \<open>
  \<^verbatim>\<open>.onDeepUndeclaredKey(rule)\<close> rebuilds the type with the \<open>undeclared\<close> setting of every
  structure in it, nested ones included, replaced by the rule. The library does this
  by a transformation that visits every node of the type and writes the rule into
  each node of kind structure, whatever setting an earlier call has left there: the
  last call that reaches a structure decides.
\<close>

fun onDeepUndeclaredKey :: "undeclared \<Rightarrow> ty \<Rightarrow> ty"
  and onDeepUndeclaredKey_props ::
    "undeclared \<Rightarrow> (string \<times> propkind \<times> ty) list \<Rightarrow> (string \<times> propkind \<times> ty) list"
where
  "onDeepUndeclaredKey r (TObject props u) = TObject (onDeepUndeclaredKey_props r props) r"
| "onDeepUndeclaredKey r (TUnion a b) = TUnion (onDeepUndeclaredKey r a) (onDeepUndeclaredKey r b)"
| "onDeepUndeclaredKey r (TPipe t f) = TPipe (onDeepUndeclaredKey r t) f"
| "onDeepUndeclaredKey r TString = TString"
| "onDeepUndeclaredKey r TStringIp = TStringIp"
| "onDeepUndeclaredKey r TStringUrl = TStringUrl"
| "onDeepUndeclaredKey r TNull = TNull"
| "onDeepUndeclaredKey r TBoolean = TBoolean"
| "onDeepUndeclaredKey r TInteger = TInteger"
| "onDeepUndeclaredKey r (TUnit u) = TUnit u"
| "onDeepUndeclaredKey_props r [] = []"
| "onDeepUndeclaredKey_props r (p # ps) =
     (fst p, fst (snd p), onDeepUndeclaredKey r (snd (snd p))) # onDeepUndeclaredKey_props r ps"

section \<open>The schemas of schema.ts\<close>

text \<open>
  One definition per schema of \<^verbatim>\<open>schema.ts\<close>, in the order of the file. A key written
  \<^verbatim>\<open>'k?'\<close> is optional, a type written \<^verbatim>\<open>'t = d'\<close> or given a \<^verbatim>\<open>.default\<close> makes its
  key optional with a default, and a structure declared without a rule ignores the
  keys it does not declare.
\<close>

definition stringToBool :: ty where
  "stringToBool = TPipe (TUnion TString TBoolean) StringToBool"

definition agentConfig :: ty where
  "agentConfig =
     onDeepUndeclaredKey Reject
       (TObject
          [(''authkey'', Default (JStr ''''), TString),
           (''ttl'', Default (JNum (Fin 180000)), TInteger),
           (''cache_path'', Default (JStr ''/var/lib/headplane/agent_cache.json''), TString)]
          Ignore)"

definition agentDefault :: jsval where
  "agentDefault =
     JObj [(''authkey'', JStr ''''),
           (''ttl'', JNum (Fin 180000)),
           (''cache_path'', JStr ''/var/lib/headplane/agent_cache.json'')]"

definition serverConfig :: ty where
  "serverConfig =
     TPipe
       (TObject
          [(''host'', Required, TStringIp),
           (''port'', Required, TPipe (TUnion TString TInteger) PortNumber),
           (''cookie_secret'', Required, TPipe (TUnion TString TNull) CookieSecret),
           (''cookie_secret_path'', Optional, TString),
           (''cookie_secure'', Required, stringToBool),
           (''agent'', Default agentDefault, agentConfig)]
          Ignore)
       ServerSecrets"

definition authMethod :: ty where
  "authMethod =
     TUnion (TUnit ''client_secret_basic'')
       (TUnion (TUnit ''client_secret_post'') (TUnit ''client_secret_jwt''))"

definition oidcConfig :: ty where
  "oidcConfig =
     onDeepUndeclaredKey Reject
       (TPipe
          (TObject
             [(''issuer'', Required, TStringUrl),
              (''client_id'', Required, TString),
              (''client_secret'', Required, TUnion TString TNull),
              (''client_secret_path'', Optional, TString),
              (''token_endpoint_auth_method'', Required, authMethod),
              (''redirect_uri'', Optional, TStringUrl),
              (''user_storage_file'', Default (JStr ''/var/lib/headplane/users.json''), TString),
              (''disable_api_key_login'', Required, stringToBool),
              (''headscale_api_key'', Required, TString),
              (''headscale_api_key_path'', Optional, TString),
              (''strict_validation'', Default (JBool True), stringToBool)]
             Ignore)
          OidcSecrets)"

definition headscaleConfig :: ty where
  "headscaleConfig =
     onDeepUndeclaredKey Reject
       (TObject
          [(''url'', Required, TPipe TStringUrl HeadscaleUrl),
           (''tls_cert_path'', Optional, TString),
           (''public_url'', Optional, TStringUrl),
           (''config_path'', Optional, TString),
           (''config_strict'', Required, stringToBool)]
          Ignore)"

definition containerLabel :: ty where
  "containerLabel = TObject [(''name'', Required, TString), (''value'', Required, TString)] Ignore"

definition dockerConfig :: ty where
  "dockerConfig =
     TObject
       [(''enabled'', Required, stringToBool),
        (''container_name'', Required, TString),
        (''socket'', Default (JStr ''unix:///var/run/docker.sock''), TString),
        (''container_label'', Optional, containerLabel)]
       Ignore"

definition kubernetesConfig :: ty where
  "kubernetesConfig =
     TObject
       [(''enabled'', Required, stringToBool),
        (''pod_name'', Required, TString),
        (''validate_manifest'', Required, stringToBool)]
       Ignore"

definition procConfig :: ty where
  "procConfig = TObject [(''enabled'', Required, stringToBool)] Ignore"

definition integrationConfig :: ty where
  "integrationConfig =
     onDeepUndeclaredKey Reject
       (TObject
          [(''docker'', Optional, dockerConfig),
           (''kubernetes'', Optional, kubernetesConfig),
           (''proc'', Optional, procConfig)]
          Ignore)"

definition partialServerConfig :: ty where
  "partialServerConfig =
     TObject
       [(''host'', Optional, TStringIp),
        (''port'', Optional, TPipe (TUnion TString TInteger) PartialPortNumber),
        (''cookie_secret'', Optional, TUnion TString TNull),
        (''cookie_secret_path'', Optional, TString),
        (''cookie_secure'', Required, stringToBool),
        (''agent'', Optional,
           TObject
             [(''authkey'', Optional, TString),
              (''ttl'', Optional, TInteger),
              (''cache_path'', Optional, TString)]
             Ignore)]
       Ignore"

definition partialOidcConfig :: ty where
  "partialOidcConfig =
     TObject
       [(''issuer'', Optional, TStringUrl),
        (''client_id'', Optional, TString),
        (''client_secret'', Optional, TUnion TString TNull),
        (''client_secret_path'', Optional, TString),
        (''token_endpoint_auth_method'', Optional, authMethod),
        (''redirect_uri'', Optional, TStringUrl),
        (''user_storage_file'', Optional, TString),
        (''disable_api_key_login'', Required, stringToBool),
        (''headscale_api_key'', Optional, TString),
        (''headscale_api_key_path'', Optional, TString),
        (''strict_validation'', Required, stringToBool)]
       Ignore"

definition partialHeadscaleConfig :: ty where
  "partialHeadscaleConfig =
     TObject
       [(''url'', Optional, TPipe TStringUrl PartialHeadscaleUrl),
        (''tls_cert_path'', Optional, TString),
        (''public_url'', Optional, TStringUrl),
        (''config_path'', Optional, TString),
        (''config_strict'', Required, stringToBool)]
       Ignore"

definition partialIntegrationConfig :: ty where
  "partialIntegrationConfig =
     TObject
       [(''docker'', Optional,
           TObject
             [(''enabled'', Required, stringToBool),
              (''container_name'', Optional, TString),
              (''socket'', Optional, TString),
              (''container_label'', Optional, containerLabel)]
             Ignore),
        (''kubernetes'', Optional,
           TObject
             [(''enabled'', Required, stringToBool),
              (''pod_name'', Optional, TString),
              (''validate_manifest'', Required, stringToBool)]
             Ignore),
        (''proc'', Optional, TObject [(''enabled'', Required, stringToBool)] Ignore)]
       Ignore"

definition headplaneConfig :: ty where
  "headplaneConfig =
     onDeepUndeclaredKey Delete
       (TObject
          [(''debug'', Required, stringToBool),
           (''server'', Required, serverConfig),
           (''oidc'', Optional, oidcConfig),
           (''integration'', Optional, integrationConfig),
           (''headscale'', Required, headscaleConfig)]
          Ignore)"

definition partialHeadplaneConfig :: ty where
  "partialHeadplaneConfig =
     TObject
       [(''debug'', Required, stringToBool),
        (''server'', Required, partialServerConfig),
        (''oidc'', Optional, partialOidcConfig),
        (''integration'', Optional, partialIntegrationConfig),
        (''headscale'', Required, partialHeadscaleConfig)]
       Ignore"

section \<open>The loader of loader.ts\<close>

subsection \<open>String operations\<close>

definition startsWith :: "string \<Rightarrow> string \<Rightarrow> bool" where
  "startsWith s p = (take (length p) s = p)"

text \<open>\<open>toLowerCase\<close> on code units below 256: the letters A to Z and the capital
  letters of Latin-1 (192 to 222 without the multiplication sign 215) move up by 32.\<close>

definition lower_char :: "char \<Rightarrow> char" where
  "lower_char c =
     (let n = (of_char c :: nat) in
      if (65 \<le> n \<and> n \<le> 90) \<or> (192 \<le> n \<and> n \<le> 222 \<and> n \<noteq> 215) then char_of (n + 32) else c)"

definition toLowerCase :: "string \<Rightarrow> string" where
  "toLowerCase s = map lower_char s"

text \<open>\<open>s.split('__')\<close>: the pieces between the occurrences of the delimiter, found from
  the left; \<open>cur\<close> is the piece being read.\<close>

fun split_dunder :: "string \<Rightarrow> string \<Rightarrow> string list" where
  "split_dunder cur [] = [cur]"
| "split_dunder cur [c] = [cur @ [c]]"
| "split_dunder cur (c # d # rest) =
     (if c = CHR ''_'' \<and> d = CHR ''_'' then cur # split_dunder [] rest
      else split_dunder (cur @ [c]) (d # rest))"

text \<open>The position of the first occurrence of a string in another (\<open>indexOf\<close>).\<close>

fun find_first :: "string \<Rightarrow> string \<Rightarrow> nat option" where
  "find_first pat [] = (if pat = [] then Some 0 else None)"
| "find_first pat (c # cs) =
     (if startsWith (c # cs) pat then Some 0 else map_option Suc (find_first pat cs))"

text \<open>
  The replacement text of \<open>s.replace(pattern, replacement)\<close> for a string pattern:
  \<^verbatim>\<open>$$\<close> is a dollar sign, \<^verbatim>\<open>$&\<close> the matched text, \<^verbatim>\<open>$`\<close> the text before the match,
  \<^verbatim>\<open>$'\<close> the text after it; every other character stands for itself.
\<close>

fun get_substitution :: "string \<Rightarrow> string \<Rightarrow> string \<Rightarrow> string \<Rightarrow> string" where
  "get_substitution matched pre post [] = []"
| "get_substitution matched pre post [c] = [c]"
| "get_substitution matched pre post (c # d # rest) =
     (if c = CHR ''$'' \<and> d = CHR ''$'' then CHR ''$'' # get_substitution matched pre post rest
      else if c = CHR ''$'' \<and> d = CHR ''&'' then matched @ get_substitution matched pre post rest
      else if c = CHR ''$'' \<and> d = CHR 0x60 then pre @ get_substitution matched pre post rest
      else if c = CHR ''$'' \<and> d = CHR 0x27 then post @ get_substitution matched pre post rest
      else c # get_substitution matched pre post (d # rest))"

definition replace_first :: "string \<Rightarrow> string \<Rightarrow> string \<Rightarrow> string" where
  "replace_first pat rep s =
     (case find_first pat s of
        None \<Rightarrow> s
      | Some i \<Rightarrow>
          take i s
            @ get_substitution pat (take i s) (drop (i + length pat) s) rep
            @ drop (i + length pat) s)"

text \<open>\<open>trim\<close> on code units below 256: tab, line feed, vertical tab, form feed,
  carriage return, space and no-break space are removed at both ends.\<close>

definition is_space :: "char \<Rightarrow> bool" where
  "is_space c = ((of_char c :: nat) \<in> {9, 10, 11, 12, 13, 32, 160})"

definition trim :: "string \<Rightarrow> string" where
  "trim s = rev (dropWhile is_space (rev (dropWhile is_space s)))"

subsection \<open>loadSecretFromFile\<close>

text \<open>
  The matches of \<^verbatim>\<open>/\${(.*?)}/g\<close> in a path, from the left and without overlap: a
  match starts at \<^verbatim>\<open>${\<close> and ends at the next closing brace; the dot does not match a
  line terminator, so no match reaches over a line feed or carriage return.
\<close>

definition is_line_terminator :: "char \<Rightarrow> bool" where
  "is_line_terminator c = (c = CHR 0x0A \<or> c = CHR 0x0D)"

fun find_close :: "string \<Rightarrow> string option" where
  "find_close [] = None"
| "find_close (c # cs) =
     (if c = CHR ''}'' then Some []
      else if is_line_terminator c then None
      else map_option ((#) c) (find_close cs))"

function match_markers :: "string \<Rightarrow> string list" where
  "match_markers [] = []"
| "match_markers [c] = []"
| "match_markers (c # d # rest) =
     (if c = CHR ''$'' \<and> d = CHR ''{'' then
        (case find_close rest of
           Some name \<Rightarrow> (''${'' @ name @ ''}'') # match_markers (drop (Suc (length name)) rest)
         | None \<Rightarrow> match_markers (d # rest))
      else match_markers (d # rest))"
  by pat_completeness auto
termination
  by (relation "measure length") auto

text \<open>
  The environment is the list of its variables, the own properties of the object
  \<open>process.env\<close>. A read \<open>process.env[name]\<close> gives the value of the variable of that
  name, or else the property of that name that the object inherits, or else
  \<open>undefined\<close>. Reading a file gives its text, or fails (\<open>None\<close>).
\<close>

type_synonym environment = "(string \<times> string) list"

datatype env_value = Variable string | Inherited string | Unset

definition process_env :: "environment \<Rightarrow> string \<Rightarrow> env_value" where
  "process_env env name =
     (case map_of env name of
        Some val \<Rightarrow> Variable val
      | None \<Rightarrow> if name \<in> set object_prototype_names then Inherited name else Unset)"

text \<open>
  An inherited property is a function, but for \<^verbatim>\<open>__proto__\<close>, which is the object
  \<open>Object.prototype\<close>. \<open>s.replace(pattern, f)\<close> with a function calls it, when the
  pattern occurs, on the matched text, its position and \<open>s\<close>, with \<open>this\<close> undefined,
  and puts the result, as a string, in the place of the match. Of the inherited
  functions, \<open>constructor\<close> (\<open>Object\<close>) returns the matched text as an object,
  \<open>toString\<close> returns \<^verbatim>\<open>[object Undefined]\<close>, \<open>isPrototypeOf\<close> returns \<open>false\<close>, and the
  others throw a \<open>TypeError\<close> (\<open>None\<close>), having no object as \<open>this\<close>. With the object
  \<open>Object.prototype\<close> the replacement is its string, \<^verbatim>\<open>[object Object]\<close>.
\<close>

definition call_inherited :: "string \<Rightarrow> string \<Rightarrow> string option" where
  "call_inherited name matched =
     (if name = ''constructor'' then Some matched
      else if name = ''toString'' then Some ''[object Undefined]''
      else if name = ''isPrototypeOf'' then Some ''false''
      else None)"

definition replace_inherited :: "string \<Rightarrow> string \<Rightarrow> string \<Rightarrow> string option" where
  "replace_inherited pat name s =
     (if name = ''__proto__'' then Some (replace_first pat ''[object Object]'' s)
      else
        (case find_first pat s of
           None \<Rightarrow> Some s
         | Some i \<Rightarrow>
             map_option (\<lambda>r. take i s @ r @ drop (i + length pat) s) (call_inherited name pat)))"

text \<open>
  How \<^verbatim>\<open>loadSecretFromFile\<close> ends without a secret: with one of four errors that it
  logs before it returns no value, or with the \<open>TypeError\<close> thrown in its loop, which
  it does not catch.
\<close>

datatype secret_error =
    EnvNotSet string
  | ReadFailed string
  | EmptySecret
  | LengthMismatch int nat
  | TypeErrorThrown

text \<open>\<^verbatim>\<open>match.slice(2, -1)\<close>: the name between the braces of a match.\<close>

definition marker_name :: "string \<Rightarrow> string" where
  "marker_name m = butlast (drop 2 m)"

text \<open>The loop over the matches: \<open>resolved\<close> is \<^verbatim>\<open>resolvedPath\<close>. A value that is
  \<open>undefined\<close> or the empty string ends it.\<close>

fun interpolate :: "environment \<Rightarrow> string list \<Rightarrow> string \<Rightarrow> secret_error + string" where
  "interpolate env [] resolved = Inr resolved"
| "interpolate env (m # ms) resolved =
     (case process_env env (marker_name m) of
        Unset \<Rightarrow> Inl (EnvNotSet (marker_name m))
      | Variable val \<Rightarrow>
          if val = [] then Inl (EnvNotSet (marker_name m))
          else interpolate env ms (replace_first m val resolved)
      | Inherited name \<Rightarrow>
          (case replace_inherited m name resolved of
             None \<Rightarrow> Inl TypeErrorThrown
           | Some resolved' \<Rightarrow> interpolate env ms resolved'))"

text \<open>
  \<^verbatim>\<open>loadSecretFromFile(path, secretName, requiredLength)\<close>: the secret, or \<open>Inl\<close> with
  how it ends without one, and the paths it read with \<^verbatim>\<open>readFile\<close>.
\<close>

definition loadSecretFromFile ::
  "environment \<Rightarrow> (string \<Rightarrow> string option) \<Rightarrow> string \<Rightarrow> int option
     \<Rightarrow> (secret_error + string) \<times> string list" where
  "loadSecretFromFile env files path requiredLength =
     (case interpolate env (match_markers path) path of
        Inl e \<Rightarrow> (Inl e, [])
      | Inr resolvedPath \<Rightarrow>
          (case files resolvedPath of
             None \<Rightarrow> (Inl (ReadFailed path), [resolvedPath])
           | Some secret \<Rightarrow>
               (if length (trim secret) = 0 then (Inl EmptySecret, [resolvedPath])
                else
                  (case requiredLength of
                     None \<Rightarrow> (Inr (trim secret), [resolvedPath])
                   | Some n \<Rightarrow>
                       if n \<noteq> 0 \<and> int (length (trim secret)) \<noteq> n
                       then (Inl (LengthMismatch n (length (trim secret))), [resolvedPath])
                       else (Inr (trim secret), [resolvedPath])))))"

subsection \<open>deepMerge\<close>

lemma size_index_entries:
  "size_list (\<lambda>e. size (snd e)) (index_entries i xs) = size_list size xs"
  by (induction xs arbitrary: i) auto

lemma size_own_entries:
  "typeof_object v \<Longrightarrow> size_list (\<lambda>e. size (snd e)) (own_entries v) \<le> size v"
proof (cases v)
  case (JObj kv)
  have "size_list (\<lambda>e. size (snd e)) kv \<le> size_list (size_prod (\<lambda>_. 0) size) kv"
    by (induction kv) auto
  with JObj show ?thesis by simp
qed (simp_all add: size_index_entries)

text \<open>
  \<^verbatim>\<open>deepMerge(target, source)\<close>; \<open>merge_keys\<close> is its loop over the keys of the source,
  with \<^verbatim>\<open>result\<close> as first argument.
\<close>

function deepMerge :: "jsval \<Rightarrow> jsval \<Rightarrow> jsval"
  and merge_keys :: "(string \<times> jsval) list \<Rightarrow> (string \<times> jsval) list \<Rightarrow> (string \<times> jsval) list"
where
  "deepMerge target source =
     (if \<not> typeof_object target \<or> \<not> typeof_object source then source
      else JObj (merge_keys (own_entries target) (own_entries source)))"
| "merge_keys result [] = result"
| "merge_keys result (e # rest) =
     (if snd e = JUndefined then merge_keys result rest
      else if typeof_object (snd e) then
        merge_keys (AList.update (fst e) (deepMerge (get_prop result (fst e)) (snd e)) result) rest
      else merge_keys (AList.update (fst e) (snd e) result) rest)"
  by pat_completeness auto
termination
proof (relation "measure (\<lambda>x. case x of
          Inl (target, source) \<Rightarrow> 2 * size source + 1
        | Inr (result, es) \<Rightarrow> 2 * size_list (\<lambda>e. size (snd e)) es)", goal_cases)
  case (2 target source)
  then have "typeof_object source" by simp
  from size_own_entries [OF this] show ?case by simp
qed auto

declare deepMerge.simps [simp del]

subsection \<open>coalesceEnv\<close>

text \<open>
  The filter of \<^verbatim>\<open>coalesceEnv\<close> over the entries of the environment; \<open>rootKeys\<close> are the
  values of \<^verbatim>\<open>envVariables\<close>, a table of the module \<^verbatim>\<open>./env\<close>.
\<close>

definition env_vars :: "string list \<Rightarrow> environment \<Rightarrow> environment" where
  "env_vars rootKeys env =
     filter (\<lambda>e. snd e \<noteq> [] \<and> startsWith (fst e) ''HEADPLANE_'' \<and> fst e \<notin> set rootKeys) env"

definition configPath :: "string \<Rightarrow> string list" where
  "configPath key = split_dunder [] (toLowerCase (replace_first ''HEADPLANE_'' [] key))"

text \<open>
  The walk along a path into \<^verbatim>\<open>envConfig\<close> and the assignment at its last segment;
  \<open>cur\<close> is \<^verbatim>\<open>current\<close>, an object that the loop has made with \<^verbatim>\<open>{}\<close>. The test
  \<^verbatim>\<open>path in current\<close> holds for an own key and for an inherited name. At an own key
  that holds a string the walk ends with a \<open>TypeError\<close>: the module is strict code,
  where \<open>in\<close> cannot search a string and a property cannot be set on one. At an
  inherited name that is no own key, \<^verbatim>\<open>current\<close> becomes a built-in object of the
  runtime (for \<open>constructor\<close>, the function \<open>Object\<close>), and the walk and the
  assignment go on there, outside the override object: \<open>IntoBuiltin\<close>, which is as far
  as the walk is followed. An assignment to \<^verbatim>\<open>__proto__\<close> of a string changes nothing.
\<close>

datatype walk_error = TypeError | IntoBuiltin string

fun assign_path ::
  "string list \<Rightarrow> string \<Rightarrow> (string \<times> jsval) list \<Rightarrow> walk_error + (string \<times> jsval) list" where
  "assign_path [] val cur = Inr (AList.update ''undefined'' (JStr val) cur)"
| "assign_path [k] val cur =
     (if k = ''__proto__'' then Inr cur else Inr (AList.update k (JStr val) cur))"
| "assign_path (k # k' # ks) val cur =
     (case map_of cur k of
        None \<Rightarrow>
          if k \<in> set object_prototype_names then Inl (IntoBuiltin k)
          else
            (case assign_path (k' # ks) val [] of
               Inl e \<Rightarrow> Inl e
             | Inr sub' \<Rightarrow> Inr (AList.update k (JObj sub') cur))
      | Some v \<Rightarrow>
          (case v of
             JObj sub \<Rightarrow>
               (case assign_path (k' # ks) val sub of
                  Inl e \<Rightarrow> Inl e
                | Inr sub' \<Rightarrow> Inr (AList.update k (JObj sub') cur))
           | _ \<Rightarrow> Inl TypeError))"

fun build_envConfig ::
  "environment \<Rightarrow> (string \<times> jsval) list \<Rightarrow> walk_error + (string \<times> jsval) list" where
  "build_envConfig [] envConfig = Inr envConfig"
| "build_envConfig (e # es) envConfig =
     (case assign_path (configPath (fst e)) (snd e) envConfig of
        Inl err \<Rightarrow> Inl err
      | Inr envConfig' \<Rightarrow> build_envConfig es envConfig')"

text \<open>
  What a call returns: a value, the process exit with a status, or an exception.
  \<open>Unfollowed k\<close> stands for a call whose walk has gone into the built-in object
  reached by the inherited name \<open>k\<close>: what the program does from there on depends on
  the objects of the runtime and is not followed.
\<close>

datatype 'a outcome = Returned 'a | Exited nat | Raised string | Unfollowed string

text \<open>\<^verbatim>\<open>coalesceConfig\<close>: the partial schema on the override object; errors give no value.\<close>

definition coalesceConfig :: "arklib \<Rightarrow> jsval \<Rightarrow> validation" where
  "coalesceConfig L config = validate L partialHeadplaneConfig config"

text \<open>\<^verbatim>\<open>envConfig\<close> as the loop of \<^verbatim>\<open>coalesceEnv\<close> leaves it.\<close>

definition envConfig_of ::
  "string list \<Rightarrow> environment \<Rightarrow> walk_error + (string \<times> jsval) list" where
  "envConfig_of rootKeys env = build_envConfig (env_vars rootKeys env) []"

definition coalesceEnv :: "arklib \<Rightarrow> string list \<Rightarrow> environment \<Rightarrow> jsval \<Rightarrow> jsval option outcome" where
  "coalesceEnv L rootKeys env config =
     (case envConfig_of rootKeys env of
        Inl TypeError \<Rightarrow> Raised ''TypeError''
      | Inl (IntoBuiltin k) \<Rightarrow> Unfollowed k
      | Inr envConfig \<Rightarrow>
          (case coalesceConfig L (JObj envConfig) of
             Errors es \<Rightarrow> Returned None
           | Throws err \<Rightarrow> Raised err
           | Ok toMerge \<Rightarrow> Returned (Some (deepMerge config toMerge))))"

subsection \<open>loadConfig\<close>

text \<open>
  What \<^verbatim>\<open>loadConfig\<close> reads: the files and their readability, the environment, the
  debug state of the logger, the YAML parser (\<open>None\<close> when the document has errors)
  and the environment as \<^verbatim>\<open>configDotenv({ override: true })\<close> leaves it. What it does
  besides returning is kept as a list of events.
\<close>

record world =
  files :: "string \<Rightarrow> string option"
  readable :: "string \<Rightarrow> bool"
  environ :: environment
  debugEnabled :: bool
  parse_yaml :: "string \<Rightarrow> jsval option"
  dotenv_environ :: environment

datatype event = Access string | ReadFile string | LoadDotenv | ListEnvironment

type_synonym 'a effect = "'a outcome \<times> event list"

record EnvOverrides =
  loadEnv :: bool
  path :: string

definition validateConfigPath :: "world \<Rightarrow> string \<Rightarrow> bool" where
  "validateConfigPath w p = readable w p"

definition loadConfigFile :: "world \<Rightarrow> string \<Rightarrow> jsval" where
  "loadConfigFile w p =
     (case files w p of
        None \<Rightarrow> JBool False
      | Some data \<Rightarrow> (case parse_yaml w data of None \<Rightarrow> JBool False | Some json \<Rightarrow> json))"

definition validateConfig :: "arklib \<Rightarrow> jsval \<Rightarrow> validation" where
  "validateConfig L config = validate L headplaneConfig config"

text \<open>
  One of the three secret steps of \<^verbatim>\<open>loadConfig\<close>: when the section exists and its path
  field is truthy, the secret is loaded and written to the inline field; when
  \<^verbatim>\<open>loadSecretFromFile\<close> returns no value, the process exits, and when it throws, so
  does \<^verbatim>\<open>loadConfig\<close>.
\<close>

definition resolve_secret ::
  "world \<Rightarrow> string \<Rightarrow> string \<Rightarrow> string \<Rightarrow> int option \<Rightarrow> jsval \<Rightarrow> jsval effect" where
  "resolve_secret w section path_key inline_key requiredLength config =
     (let section_v = field config section in
      if loose_null section_v \<or> \<not> Boolean (field section_v path_key) then (Returned config, [])
      else
        (case field section_v path_key of
           JStr p \<Rightarrow>
             (case loadSecretFromFile (environ w) (files w) p requiredLength of
                (Inl e, reads) \<Rightarrow>
                  (if e = TypeErrorThrown then Raised ''TypeError'' else Exited 1, map ReadFile reads)
              | (Inr secret, reads) \<Rightarrow>
                  (Returned (set_field config section (set_field section_v inline_key (JStr secret))),
                   map ReadFile reads))
         | _ \<Rightarrow> (Returned config, [])))"

text \<open>Sequencing: the next step runs on the value returned; any other outcome ends
  the sequence.\<close>

definition and_then :: "'a effect \<Rightarrow> ('a \<Rightarrow> 'b effect) \<Rightarrow> 'b effect" where
  "and_then r f =
     (case fst r of
        Returned x \<Rightarrow> (fst (f x), snd r @ snd (f x))
      | Exited n \<Rightarrow> (Exited n, snd r)
      | Raised e \<Rightarrow> (Raised e, snd r)
      | Unfollowed k \<Rightarrow> (Unfollowed k, snd r))"

text \<open>The stages of \<^verbatim>\<open>loadConfig\<close> up to and including the three secrets.\<close>

definition load_and_resolve :: "arklib \<Rightarrow> world \<Rightarrow> string \<Rightarrow> jsval effect" where
  "load_and_resolve L w p =
     (if \<not> validateConfigPath w p then (Exited 1, [Access p])
      else
        (let data = loadConfigFile w p in
         if \<not> Boolean data then (Exited 1, [Access p, ReadFile p])
         else
           (case validateConfig L
                   (JObj (AList.update ''debug'' (JBool (debugEnabled w)) (own_entries data))) of
              Errors es \<Rightarrow> (Exited 1, [Access p, ReadFile p])
            | Throws e \<Rightarrow> (Raised e, [Access p, ReadFile p])
            | Ok config \<Rightarrow>
                and_then
                  (and_then
                     (and_then (Returned config, [Access p, ReadFile p])
                        (resolve_secret w ''server'' ''cookie_secret_path'' ''cookie_secret'' (Some 32)))
                     (resolve_secret w ''oidc'' ''client_secret_path'' ''client_secret'' None))
                  (resolve_secret w ''oidc'' ''headscale_api_key_path'' ''headscale_api_key'' None))))"

definition loadConfig :: "arklib \<Rightarrow> string list \<Rightarrow> world \<Rightarrow> EnvOverrides \<Rightarrow> jsval effect" where
  "loadConfig L rootKeys w opts =
     and_then (load_and_resolve L w (path opts))
       (\<lambda>config.
          if \<not> loadEnv opts then (Returned config, [])
          else
            (case coalesceEnv L rootKeys (dotenv_environ w) config of
               Raised e \<Rightarrow> (Raised e, [LoadDotenv, ListEnvironment])
             | Exited n \<Rightarrow> (Exited n, [LoadDotenv, ListEnvironment])
             | Unfollowed k \<Rightarrow> (Unfollowed k, [LoadDotenv, ListEnvironment])
             | Returned None \<Rightarrow> (Exited 1, [LoadDotenv, ListEnvironment])
             | Returned (Some merged) \<Rightarrow> (Returned merged, [LoadDotenv, ListEnvironment])))"

section \<open>Notions used in the statements\<close>

text \<open>A validation passes when it returns a value.\<close>

definition passes :: "validation \<Rightarrow> bool" where
  "passes r = (case r of Ok out \<Rightarrow> True | Errors es \<Rightarrow> False | Throws e \<Rightarrow> False)"

text \<open>\<^verbatim>\<open>config.headscale.url\<close> of a validation that returned a value.\<close>

definition validated_url :: "validation \<Rightarrow> jsval" where
  "validated_url r =
     (case r of
        Ok out \<Rightarrow> field (field out ''headscale'') ''url''
      | Errors es \<Rightarrow> JUndefined
      | Throws e \<Rightarrow> JUndefined)"

text \<open>The value stored at a path of nested objects, when every segment is present.\<close>

fun lookup_path :: "jsval \<Rightarrow> string list \<Rightarrow> jsval option" where
  "lookup_path v [] = Some v"
| "lookup_path v (k # ks) =
     (case v of
        JObj kv \<Rightarrow> (case map_of kv k of None \<Rightarrow> None | Some x \<Rightarrow> lookup_path x ks)
      | _ \<Rightarrow> None)"

text \<open>
  What sits at a path of nested objects: nothing, a string, an object, or a value of
  another kind.
\<close>

datatype slot = Absent | Text string | Node | Other

definition slot_at :: "jsval \<Rightarrow> string list \<Rightarrow> slot" where
  "slot_at v p =
     (case lookup_path v p of
        None \<Rightarrow> Absent
      | Some x \<Rightarrow> (case x of JStr s \<Rightarrow> Text s | JObj kv \<Rightarrow> Node | _ \<Rightarrow> Other))"

text \<open>
  The split of a string at the delimiter \<^verbatim>\<open>__\<close>, in the words of its description: the
  pieces joined by the delimiter give the string, no piece contains the delimiter, and
  no piece but the last ends in an underscore, the delimiter being found from the left.
\<close>

fun join_dunder :: "string list \<Rightarrow> string" where
  "join_dunder [] = []"
| "join_dunder [s] = s"
| "join_dunder (s # t # ts) = s @ ''__'' @ join_dunder (t # ts)"

fun has_dunder :: "string \<Rightarrow> bool" where
  "has_dunder (c # d # rest) = ((c = CHR ''_'' \<and> d = CHR ''_'') \<or> has_dunder (d # rest))"
| "has_dunder s = False"

definition splits_at_dunder :: "string \<Rightarrow> string list \<Rightarrow> bool" where
  "splits_at_dunder s p \<longleftrightarrow>
     p \<noteq> [] \<and> join_dunder p = s \<and> (\<forall>x\<in>set p. \<not> has_dunder x)
     \<and> (\<forall>x\<in>set (butlast p). x = [] \<or> last x \<noteq> CHR ''_'')"

text \<open>
  An entry of the environment with its path, and what the assignments of a list of
  such entries leave at a path, read from the latest entry back: the value of an entry
  at its own path, an object at a proper prefix of its path, nothing below its path,
  and at every other path what the earlier entries have left there. Before the first
  entry there is the empty object at the root and nothing elsewhere.
\<close>

definition path_entry :: "string \<times> string \<Rightarrow> string list \<times> string" where
  "path_entry e = (configPath (fst e), snd e)"

fun written :: "(string list \<times> string) list \<Rightarrow> string list \<Rightarrow> slot" where
  "written [] p = (if p = [] then Node else Absent)"
| "written (e # earlier) p =
     (if fst e = p then Text (snd e)
      else if strict_prefix p (fst e) then Node
      else if strict_prefix (fst e) p then Absent
      else written earlier p)"

text \<open>No path of a list is a proper prefix of a later one.\<close>

fun no_earlier_prefix :: "string list list \<Rightarrow> bool" where
  "no_earlier_prefix [] = True"
| "no_earlier_prefix (p # ps) = ((\<forall>q\<in>set ps. \<not> strict_prefix p q) \<and> no_earlier_prefix ps)"

text \<open>
  The path with every marker replaced by the value of its variable, read once from the
  left: what the spec's words for the resolver's second step describe. A marker is
  found as \<open>match_markers\<close> finds it.
\<close>

function substitute_markers :: "environment \<Rightarrow> string \<Rightarrow> string" where
  "substitute_markers env [] = []"
| "substitute_markers env [c] = [c]"
| "substitute_markers env (c # d # rest) =
     (if c = CHR ''$'' \<and> d = CHR ''{'' then
        (case find_close rest of
           Some name \<Rightarrow>
             (case map_of env name of None \<Rightarrow> [] | Some val \<Rightarrow> val)
               @ substitute_markers env (drop (Suc (length name)) rest)
         | None \<Rightarrow> c # substitute_markers env (d # rest))
      else c # substitute_markers env (d # rest))"
  by pat_completeness auto
termination
  by (relation "measure (\<lambda>x. length (snd x))") auto

text \<open>A text that a marker can hold between its braces: no closing brace and no line
  terminator.\<close>

definition clean :: "string \<Rightarrow> bool" where
  "clean s = (CHR ''}'' \<notin> set s \<and> (\<forall>c\<in>set s. \<not> is_line_terminator c))"

text \<open>A value of a variable that is not empty and has no dollar sign and no brace.\<close>

definition plain_value :: "string \<Rightarrow> bool" where
  "plain_value v = (v \<noteq> [] \<and> CHR ''$'' \<notin> set v \<and> CHR ''{'' \<notin> set v \<and> CHR ''}'' \<notin> set v)"

text \<open>A match of the marker pattern starts at the head of a string.\<close>

definition marker_at :: "string \<Rightarrow> bool" where
  "marker_at s =
     (case s of
        c # d # rest \<Rightarrow> c = CHR ''$'' \<and> d = CHR ''{'' \<and> find_close rest \<noteq> None
      | _ \<Rightarrow> False)"

text \<open>
  Three of the piped functions of \<^verbatim>\<open>schema.ts\<close> contain a \<^verbatim>\<open>throw\<close>. A type is free of
  them when no function piped anywhere in it is one of the three.
\<close>

fun throws_free :: "ty \<Rightarrow> bool"
  and throws_free_props :: "(string \<times> propkind \<times> ty) list \<Rightarrow> bool"
where
  "throws_free (TPipe t f) = (f \<noteq> CookieSecret \<and> f \<noteq> ServerSecrets \<and> f \<noteq> OidcSecrets \<and> throws_free t)"
| "throws_free (TUnion a b) = (throws_free a \<and> throws_free b)"
| "throws_free (TObject props u) = throws_free_props props"
| "throws_free TString = True"
| "throws_free TStringIp = True"
| "throws_free TStringUrl = True"
| "throws_free TNull = True"
| "throws_free TBoolean = True"
| "throws_free TInteger = True"
| "throws_free (TUnit u) = True"
| "throws_free_props [] = True"
| "throws_free_props (p # ps) = (throws_free (snd (snd p)) \<and> throws_free_props ps)"

section \<open>Example inputs\<close>

text \<open>
  Values of the three library parameters on the strings of the examples below:
  \<^verbatim>\<open>0.0.0.0\<close> is an IP address, the three \<^verbatim>\<open>https://example.com\<close> strings parse as
  URLs, and \<open>Number('8080')\<close> is 8080.
\<close>

definition example_lib :: arklib where
  "example_lib =
     \<lparr> string_ip = (\<lambda>s. s = ''0.0.0.0''),
       string_url = (\<lambda>s. s = ''https://example.com'' \<or> s = ''https://example.com/''
                            \<or> s = ''https://example.com//''),
       Number_of_string = (\<lambda>s. if s = ''8080'' then Fin 8080 else NaN) \<rparr>"

text \<open>A minimal valid document, as \<^verbatim>\<open>loadConfig\<close> hands it to the full schema.\<close>

definition secret32 :: string where
  "secret32 = ''0123456789abcdef0123456789abcdef''"

definition minimal_server :: "(string \<times> jsval) list" where
  "minimal_server =
     [(''host'', JStr ''0.0.0.0''), (''port'', JNum (Fin 8080)),
      (''cookie_secret'', JStr secret32), (''cookie_secure'', JBool True)]"

definition minimal_headscale :: "string \<Rightarrow> (string \<times> jsval) list" where
  "minimal_headscale u = [(''url'', JStr u), (''config_strict'', JBool True)]"

definition minimal_doc :: "(string \<times> jsval) list" where
  "minimal_doc =
     [(''server'', JObj minimal_server),
      (''headscale'', JObj (minimal_headscale ''https://example.com/'')),
      (''debug'', JBool False)]"

text \<open>An \<^verbatim>\<open>oidc\<close> section without the two fields of the API key, and two documents with it.\<close>

definition oidc_base :: "(string \<times> jsval) list" where
  "oidc_base =
     [(''issuer'', JStr ''https://example.com''),
      (''client_id'', JStr ''headplane''),
      (''client_secret'', JStr ''s3cret''),
      (''token_endpoint_auth_method'', JStr ''client_secret_basic''),
      (''disable_api_key_login'', JBool False)]"

definition doc_api_key_inline :: jsval where
  "doc_api_key_inline =
     JObj (minimal_doc @ [(''oidc'', JObj (oidc_base @ [(''headscale_api_key'', JStr ''key'')]))])"

definition doc_api_key_path :: jsval where
  "doc_api_key_path =
     JObj (minimal_doc
       @ [(''oidc'', JObj (oidc_base @ [(''headscale_api_key_path'', JStr ''/run/secrets/key'')]))])"

text \<open>
  Three more documents with an \<^verbatim>\<open>oidc\<close> section: the API key \<open>null\<close> with its path
  given, the API key given inline and by path, and the client secret \<open>null\<close> with its
  path given.
\<close>

definition doc_api_key_null :: jsval where
  "doc_api_key_null =
     JObj (minimal_doc
       @ [(''oidc'', JObj (oidc_base @ [(''headscale_api_key'', JNull),
                                        (''headscale_api_key_path'', JStr ''/run/secrets/key'')]))])"

definition doc_api_key_both :: jsval where
  "doc_api_key_both =
     JObj (minimal_doc
       @ [(''oidc'', JObj (oidc_base @ [(''headscale_api_key'', JStr ''key''),
                                        (''headscale_api_key_path'', JStr ''/run/secrets/key'')]))])"

definition doc_client_secret_path :: jsval where
  "doc_client_secret_path =
     JObj (minimal_doc
       @ [(''oidc'',
            JObj [(''issuer'', JStr ''https://example.com''),
                  (''client_id'', JStr ''headplane''),
                  (''client_secret'', JNull),
                  (''client_secret_path'', JStr ''/run/secrets/oidc''),
                  (''token_endpoint_auth_method'', JStr ''client_secret_basic''),
                  (''disable_api_key_login'', JBool False),
                  (''headscale_api_key'', JStr ''key'')])])"

text \<open>A document with a key that the \<^verbatim>\<open>docker\<close> integration does not declare, one with
  a key that the \<^verbatim>\<open>server\<close> section does not declare, and one with a key that the
  document root does not declare.\<close>

definition doc_unknown_docker_key :: jsval where
  "doc_unknown_docker_key =
     JObj (minimal_doc
       @ [(''integration'',
            JObj [(''docker'',
                    JObj [(''enabled'', JBool True), (''container_name'', JStr ''headscale''),
                          (''bogus'', JStr ''x'')])])])"

definition doc_unknown_server_key :: jsval where
  "doc_unknown_server_key =
     JObj
       [(''server'', JObj (minimal_server @ [(''bogus'', JStr ''x'')])),
        (''headscale'', JObj (minimal_headscale ''https://example.com/'')),
        (''debug'', JBool False)]"

definition doc_unknown_root_key :: jsval where
  "doc_unknown_root_key = JObj (minimal_doc @ [(''bogus'', JStr ''x'')])"

text \<open>The override object of the single variable \<^verbatim>\<open>HEADPLANE_OIDC__CLIENT_ID=abc\<close>.\<close>

definition oidc_client_id_fragment :: jsval where
  "oidc_client_id_fragment = JObj [(''oidc'', JObj [(''client_id'', JStr ''abc'')])]"

text \<open>The minimal document as the full schema returns it, and a document whose URL ends
  in two slashes.\<close>

definition minimal_doc_validated :: jsval where
  "minimal_doc_validated =
     JObj
       [(''server'',
         JObj
           [(''host'', JStr ''0.0.0.0''), (''port'', JNum (Fin 8080)),
            (''cookie_secret'', JStr secret32), (''cookie_secure'', JBool True),
            (''agent'', agentDefault)]),
        (''headscale'', JObj (minimal_headscale ''https://example.com'')),
        (''debug'', JBool False)]"

definition doc_two_slashes :: jsval where
  "doc_two_slashes =
     JObj
       [(''server'', JObj minimal_server),
        (''headscale'', JObj (minimal_headscale ''https://example.com//'')),
        (''debug'', JBool False)]"

text \<open>A document whose flags are strings, and what the full schema returns for it.\<close>

definition doc_string_flags :: jsval where
  "doc_string_flags =
     JObj
       [(''server'',
         JObj
           [(''host'', JStr ''0.0.0.0''), (''port'', JNum (Fin 8080)),
            (''cookie_secret'', JStr secret32), (''cookie_secure'', JStr ''false'')]),
        (''headscale'', JObj [(''url'', JStr ''https://example.com''), (''config_strict'', JStr '''')]),
        (''debug'', JBool False)]"

definition doc_string_flags_validated :: jsval where
  "doc_string_flags_validated =
     JObj
       [(''server'',
         JObj
           [(''host'', JStr ''0.0.0.0''), (''port'', JNum (Fin 8080)),
            (''cookie_secret'', JStr secret32), (''cookie_secure'', JBool True),
            (''agent'', agentDefault)]),
        (''headscale'', JObj [(''url'', JStr ''https://example.com''), (''config_strict'', JBool False)]),
        (''debug'', JBool False)]"

text \<open>A file system with one file.\<close>

definition one_file :: "string \<Rightarrow> string \<Rightarrow> string \<Rightarrow> string option" where
  "one_file name content p = (if p = name then Some content else None)"

text \<open>Two root variables as an example of the table \<^verbatim>\<open>envVariables\<close>, a world with a
  configuration file that parses to the minimal document, and the options of a load
  without overrides.\<close>

definition example_rootKeys :: "string list" where
  "example_rootKeys = [''HEADPLANE_LOAD_ENV_OVERRIDES'', ''HEADPLANE_CONFIG_PATH'']"

definition example_world :: world where
  "example_world =
     \<lparr> files = one_file ''/etc/headplane/config.yaml'' ''(the text of the file)'',
       readable = (\<lambda>p. p = ''/etc/headplane/config.yaml''),
       environ = [(''HEADPLANE_SERVER__PORT'', ''9000'')],
       debugEnabled = False,
       parse_yaml = (\<lambda>text. Some (JObj minimal_doc)),
       dotenv_environ = [(''HEADPLANE_SERVER__PORT'', ''9000'')] \<rparr>"

definition without_overrides :: EnvOverrides where
  "without_overrides = \<lparr> loadEnv = False, path = ''/etc/headplane/config.yaml'' \<rparr>"

text \<open>
  A document that gives the cookie secret by path, which the full schema returns as it
  is, an override fragment that sets \<open>server.cookie_secret\<close> to \<open>null\<close>, and the base and
  the override of the spec's example of a merge.
\<close>

definition doc_cookie_path :: jsval where
  "doc_cookie_path =
     JObj
       [(''server'',
         JObj
           [(''host'', JStr ''0.0.0.0''), (''port'', JNum (Fin 8080)),
            (''cookie_secret'', JNull), (''cookie_secret_path'', JStr ''/run/secrets/cookie''),
            (''cookie_secure'', JBool True), (''agent'', agentDefault)]),
        (''headscale'', JObj (minimal_headscale ''https://example.com'')),
        (''debug'', JBool False)]"

definition override_null_secret :: jsval where
  "override_null_secret =
     JObj
       [(''debug'', JBool False),
        (''server'', JObj [(''cookie_secret'', JNull), (''cookie_secure'', JBool True)]),
        (''headscale'', JObj [(''config_strict'', JBool True)])]"

definition merge_base :: jsval where
  "merge_base = JObj [(''server'', JObj [(''port'', JNum (Fin 8080)), (''host'', JStr ''0.0.0.0'')])]"

definition merge_override :: jsval where
  "merge_override = JObj [(''server'', JObj [(''port'', JNum (Fin 9000))])]"

text \<open>
  An environment with three overrides, the last of which has the path of the first,
  besides a root variable, a variable without the prefix and a variable without a
  value; one whose second variable needs an object where the first has put a string;
  and one whose variable has the inherited name \<open>constructor\<close> as first segment.
\<close>

definition override_env :: environment where
  "override_env =
     [(''HEADPLANE_OIDC__CLIENT_ID'', ''abc''),
      (''HEADPLANE_CONFIG_PATH'', ''/etc/headplane/config.yaml''),
      (''PATH'', ''/usr/bin''), (''HEADPLANE_DEBUG'', []),
      (''HEADPLANE_SERVER__PORT'', ''9000''),
      (''HEADPLANE_oidc__client_id'', ''xyz'')]"

definition clashing_env :: environment where
  "clashing_env = [(''HEADPLANE_SERVER'', ''x''), (''HEADPLANE_SERVER__PORT'', ''9000'')]"

definition builtin_env :: environment where
  "builtin_env = [(''HEADPLANE_CONSTRUCTOR__X'', ''1'')]"

section \<open>Properties of the definitions\<close>

subsection \<open>The schema interpreter\<close>

lemma map_of_delete_undeclared:
  "map_of (delete_undeclared props Delete kv) k = (if k \<in> fst ` set props then map_of kv k else None)"
  unfolding delete_undeclared_def by (induction kv) auto

lemma morph_props_map_of:
  assumes "morph_props L ps kv = Inr out" and "distinct (map fst ps)"
  shows "map_of out k =
     (case map_of ps k of
        None \<Rightarrow> map_of kv k
      | Some kt \<Rightarrow>
          (case map_of kv k of
             None \<Rightarrow> (case fst kt of Default d \<Rightarrow> Some d | _ \<Rightarrow> None)
           | Some v \<Rightarrow> (case morph L (snd kt) v of Inr v' \<Rightarrow> Some v' | Inl e \<Rightarrow> None)))"
  using assms
proof (induction ps arbitrary: kv)
  case Nil
  then show ?case by simp
next
  case (Cons p ps)
  obtain k0 kind0 t0 where p: "p = (k0, kind0, t0)" by (cases p) auto
  from Cons.prems(2) p have notin: "map_of ps k0 = None" and dist: "distinct (map fst ps)"
    by (auto simp: map_of_eq_None_iff)
  show ?case
  proof (cases "map_of kv k0")
    case None
    show ?thesis
    proof (cases kind0)
      case (Default d)
      with None Cons.prems(1) p have "morph_props L ps (AList.update k0 d kv) = Inr out" by simp
      from Cons.IH [OF this dist] show ?thesis
        using None Default p notin by (auto simp: update_conv' split: option.splits)
    next
      case Required
      with None Cons.prems(1) p have "morph_props L ps kv = Inr out" by simp
      from Cons.IH [OF this dist] show ?thesis
        using None Required p notin by (auto split: option.splits)
    next
      case Optional
      with None Cons.prems(1) p have "morph_props L ps kv = Inr out" by simp
      from Cons.IH [OF this dist] show ?thesis
        using None Optional p notin by (auto split: option.splits)
    qed
  next
    case (Some v)
    with Cons.prems(1) p obtain v' where v': "morph L t0 v = Inr v'"
      and rest: "morph_props L ps (AList.update k0 v' kv) = Inr out"
      by (auto split: sum.splits)
    from Cons.IH [OF rest dist] show ?thesis
      using Some v' p notin by (auto simp: update_conv' split: option.splits)
  qed
qed

lemma morph_props_Inl:
  assumes "morph_props L ps kv = Inl e" and "distinct (map fst ps)"
  shows "\<exists>k kind t v. (k, kind, t) \<in> set ps \<and> map_of kv k = Some v \<and> morph L t v = Inl e"
  using assms
proof (induction ps arbitrary: kv)
  case Nil
  then show ?case by simp
next
  case (Cons p ps)
  obtain k0 kind0 t0 where p: "p = (k0, kind0, t0)" by (cases p) auto
  from Cons.prems(2) p have notin: "k0 \<notin> fst ` set ps" and dist: "distinct (map fst ps)"
    by auto
  show ?case
  proof (cases "map_of kv k0")
    case None
    then obtain kv' where rest: "morph_props L ps kv' = Inl e"
      and same: "\<forall>k. k \<noteq> k0 \<longrightarrow> map_of kv' k = map_of kv k"
      using Cons.prems(1) p by (cases kind0) (auto simp: update_conv')
    from Cons.IH [OF rest dist] obtain k kind t v where
      "(k, kind, t) \<in> set ps" "map_of kv' k = Some v" "morph L t v = Inl e" by blast
    moreover from this notin have "k \<noteq> k0" by force
    ultimately show ?thesis using same by (metis list.set_intros(2))
  next
    case (Some v)
    show ?thesis
    proof (cases "morph L t0 v")
      case (Inl e')
      with Some Cons.prems(1) p have "e' = e" by simp
      with Inl Some p show ?thesis by (metis list.set_intros(1))
    next
      case (Inr v')
      with Some Cons.prems(1) p have rest: "morph_props L ps (AList.update k0 v' kv) = Inl e" by simp
      from Cons.IH [OF rest dist] obtain k kind t w where
        *: "(k, kind, t) \<in> set ps" "map_of (AList.update k0 v' kv) k = Some w" "morph L t w = Inl e" by blast
      moreover from * notin have "k \<noteq> k0" by force
      ultimately show ?thesis by (metis update_conv' fun_upd_other list.set_intros(2))
    qed
  qed
qed

lemma morph_props_present:
  assumes "morph_props L ps kv = Inr out" and "distinct (map fst ps)"
    and "(k, kind, t) \<in> set ps" and "map_of kv k = Some v"
  shows "\<exists>v'. morph L t v = Inr v'"
  using assms
proof (induction ps arbitrary: kv)
  case Nil
  then show ?case by simp
next
  case (Cons p ps)
  obtain k0 kind0 t0 where p: "p = (k0, kind0, t0)" by (cases p) auto
  from Cons.prems(2) p have notin: "k0 \<notin> fst ` set ps" and dist: "distinct (map fst ps)"
    by auto
  show ?case
  proof (cases "(k, kind, t) = p")
    case True
    with Cons.prems(1,4) p show ?thesis by (auto split: sum.splits)
  next
    case False
    with Cons.prems(3) have mem: "(k, kind, t) \<in> set ps" by simp
    with notin have ne: "k \<noteq> k0" by force
    from Cons.prems(1) p obtain kv' where rest: "morph_props L ps kv' = Inr out"
      and same: "map_of kv' k = map_of kv k"
      using ne by (auto simp: update_conv' split: option.splits sum.splits propkind.splits)
    from Cons.IH [OF rest dist mem] same Cons.prems(4) show ?thesis by simp
  qed
qed

lemma check_props_empty:
  assumes "check_props L ps kv = []" and "(k, kind, t) \<in> set ps"
  shows "case map_of kv k of None \<Rightarrow> kind \<noteq> Required | Some v \<Rightarrow> check L t v = []"
  using assms by (induction ps) (auto split: option.splits if_splits)

lemma apply_morph_no_throw:
  "f \<noteq> CookieSecret \<Longrightarrow> f \<noteq> ServerSecrets \<Longrightarrow> f \<noteq> OidcSecrets \<Longrightarrow> \<exists>v'. apply_morph L f v = Inr v'"
  by (cases f) auto

lemma throws_free_morph:
  "throws_free t \<Longrightarrow> \<exists>v'. morph L t v = Inr v'"
  "throws_free_props ps \<Longrightarrow> \<exists>out. morph_props L ps kv = Inr out"
proof (induction L t v and L ps kv rule: morph_morph_props.induct)
  case (1 L t f v)
  then obtain v' where "morph L t v = Inr v'" by auto
  moreover from 1 obtain v'' where "apply_morph L f v' = Inr v''"
    using apply_morph_no_throw [of f L v'] by auto
  ultimately show ?case by simp
next
  case (3 L props u v)
  show ?case
  proof (cases "typeof_object v \<and> v \<noteq> JNull")
    case True
    with 3 obtain out where "morph_props L props (delete_undeclared props u (own_entries v)) = Inr out"
      by auto
    with True show ?thesis by simp
  next
    case False
    then show ?thesis by auto
  qed
next
  case (12 L p ps kv)
  show ?case
  proof (cases "map_of kv (fst p)")
    case None
    then show ?thesis using 12 by (cases "fst (snd p)") auto
  next
    case (Some v)
    with 12 obtain v' where "morph L (snd (snd p)) v = Inr v'" by auto
    with Some 12 show ?thesis by auto
  qed
qed (auto split: sum.splits)

lemma throws_free_onDeep:
  "throws_free (onDeepUndeclaredKey r t) = throws_free t"
  "throws_free_props (onDeepUndeclaredKey_props r ps) = throws_free_props ps"
  by (induction r t and r ps rule: onDeepUndeclaredKey_onDeepUndeclaredKey_props.induct) auto

lemma check_object_shape:
  "check L (TObject ps u) v = [] \<Longrightarrow> typeof_object v \<and> v \<noteq> JNull"
  by (cases v) auto

lemma check_object_props:
  "check L (TObject ps u) v = [] \<Longrightarrow> check_props L ps (own_entries v) = []"
  by (cases v) auto

text \<open>The server section.\<close>

lemma server_section:
  assumes chk: "check L (onDeepUndeclaredKey Delete serverConfig) sv = []"
  shows "(\<exists>out. morph L (onDeepUndeclaredKey Delete serverConfig) sv = Inr out) \<longleftrightarrow>
     loose_null (field sv ''cookie_secret'') \<noteq> loose_null (field sv ''cookie_secret_path'')
     \<and> (\<forall>s. field sv ''cookie_secret'' = JStr s \<longrightarrow> length s = 32)"
proof -
  define ps where "ps = onDeepUndeclaredKey_props Delete
          [(''host'', Required, TStringIp),
           (''port'', Required, TPipe (TUnion TString TInteger) PortNumber),
           (''cookie_secret'', Required, TPipe (TUnion TString TNull) CookieSecret),
           (''cookie_secret_path'', Optional, TString),
           (''cookie_secure'', Required, stringToBool),
           (''agent'', Default agentDefault, agentConfig)]"
  have ty: "onDeepUndeclaredKey Delete serverConfig = TPipe (TObject ps Delete) ServerSecrets"
    by (simp add: serverConfig_def ps_def)
  have dist: "distinct (map fst ps)" by (simp add: ps_def)
  have keys: "fst ` set ps = {''host'', ''port'', ''cookie_secret'', ''cookie_secret_path'', ''cookie_secure'', ''agent''}"
    by (auto simp: ps_def)
  have cs: "map_of ps ''cookie_secret'' = Some (Required, TPipe (TUnion TString TNull) CookieSecret)"
    and csp: "map_of ps ''cookie_secret_path'' = Some (Optional, TString)"
    by (simp_all add: ps_def)
  have others: "(k, kind, t) \<in> set ps \<Longrightarrow> k \<noteq> ''cookie_secret'' \<Longrightarrow> throws_free t" for k kind t
    by (auto simp: ps_def stringToBool_def agentConfig_def)
  define kv where "kv = delete_undeclared ps Delete (own_entries sv)"
  have obj: "typeof_object sv \<and> sv \<noteq> JNull"
    using chk unfolding ty by (simp add: check_object_shape)
  have kv_cs: "map_of kv ''cookie_secret'' = map_of (own_entries sv) ''cookie_secret''"
    and kv_csp: "map_of kv ''cookie_secret_path'' = map_of (own_entries sv) ''cookie_secret_path''"
    by (simp_all add: kv_def map_of_delete_undeclared keys)
  have chk_props: "check_props L ps (own_entries sv) = []"
    using chk unfolding ty by (simp add: check_object_props)
  from check_props_empty [OF chk_props, of "''cookie_secret''" Required "TPipe (TUnion TString TNull) CookieSecret"]
  obtain c where c: "map_of (own_entries sv) ''cookie_secret'' = Some c" and cty: "(\<exists>s. c = JStr s) \<or> c = JNull"
    by (cases "map_of (own_entries sv) ''cookie_secret''")
       (auto simp: ps_def mismatch_def split: jsval.splits if_splits)
  have fcs: "field sv ''cookie_secret'' = c" by (simp add: field_def get_prop_def c)
  have cmorph: "morph L (TPipe (TUnion TString TNull) CookieSecret) c =
      (case c of JStr s \<Rightarrow> if length s \<noteq> 32 then Inl ''cookie_secret must be exactly 32 characters long'' else Inr c | _ \<Rightarrow> Inr c)"
    using cty by auto
  show ?thesis
  proof (cases "\<exists>s. c = JStr s \<and> length s \<noteq> 32")
    case True
    then obtain s where s: "c = JStr s" "length s \<noteq> 32" by blast
    have "\<nexists>kv'. morph_props L ps kv = Inr kv'"
    proof
      assume "\<exists>kv'. morph_props L ps kv = Inr kv'"
      then obtain kv' where "morph_props L ps kv = Inr kv'" ..
      from morph_props_present [OF this dist, of "''cookie_secret''" Required "TPipe (TUnion TString TNull) CookieSecret" c]
      show False using s cmorph kv_cs c by (auto simp: ps_def)
    qed
    then have "\<nexists>out. morph L (onDeepUndeclaredKey Delete serverConfig) sv = Inr out"
      unfolding ty using obj by (auto simp: kv_def split: sum.splits)
    with s fcs show ?thesis by auto
  next
    case False
    then have cok: "morph L (TPipe (TUnion TString TNull) CookieSecret) c = Inr c"
      using cmorph cty by auto
    have "\<nexists>e. morph_props L ps kv = Inl e"
    proof
      assume "\<exists>e. morph_props L ps kv = Inl e"
      then obtain e where "morph_props L ps kv = Inl e" ..
      from morph_props_Inl [OF this dist] obtain k kind t v where
        *: "(k, kind, t) \<in> set ps" "map_of kv k = Some v" "morph L t v = Inl e" by blast
      show False
      proof (cases "k = ''cookie_secret''")
        case True
        with * cs dist have "t = TPipe (TUnion TString TNull) CookieSecret" by (auto simp: ps_def)
        with * True kv_cs c cok show False by simp
      next
        case False
        from others [OF *(1) False] throws_free_morph(1) [of t L v] *(3) show False by auto
      qed
    qed
    then obtain kv' where kv': "morph_props L ps kv = Inr kv'"
      by (cases "morph_props L ps kv") auto
    from morph_props_map_of [OF kv' dist, of "''cookie_secret''"]
    have o_cs: "map_of kv' ''cookie_secret'' = Some c"
      using cs kv_cs c cok by simp
    from morph_props_map_of [OF kv' dist, of "''cookie_secret_path''"]
    have o_csp: "map_of kv' ''cookie_secret_path'' = map_of (own_entries sv) ''cookie_secret_path''"
      using csp kv_csp by (auto split: option.splits)
    have m: "morph L (TObject ps Delete) sv = Inr (if kv' = own_entries sv then sv else JObj kv')"
      using obj kv' by (simp add: kv_def)
    have "(\<exists>out. morph L (onDeepUndeclaredKey Delete serverConfig) sv = Inr out) \<longleftrightarrow>
       loose_null (get_prop kv' ''cookie_secret'') \<noteq> loose_null (get_prop kv' ''cookie_secret_path'')"
      unfolding ty by (simp add: m del: morph.simps(3))
    also have "get_prop kv' ''cookie_secret'' = field sv ''cookie_secret''"
      by (simp add: get_prop_def field_def o_cs c)
    also have "get_prop kv' ''cookie_secret_path'' = field sv ''cookie_secret_path''"
      by (simp add: get_prop_def field_def o_csp)
    finally show ?thesis using False fcs by auto
  qed
qed

lemma morph_props_unchanged:
  assumes "morph_props L ps kv = Inr kv'" and "distinct (map fst ps)"
    and "map_of ps k = Some (kind, t)" and "\<And>d. kind \<noteq> Default d"
    and "\<And>v. morph L t v = Inr v"
  shows "map_of kv' k = map_of kv k"
  using morph_props_map_of [OF assms(1,2), of k] assms(3-5)
  by (cases kind) (auto split: option.splits)

text \<open>The oidc section.\<close>

lemma oidc_section:
  assumes chk: "check L (onDeepUndeclaredKey Delete oidcConfig) ov = []"
  shows "(\<exists>out. morph L (onDeepUndeclaredKey Delete oidcConfig) ov = Inr out) \<longleftrightarrow>
     loose_null (field ov ''client_secret'') \<noteq> loose_null (field ov ''client_secret_path'')
     \<and> loose_null (field ov ''headscale_api_key'') \<noteq> loose_null (field ov ''headscale_api_key_path'')"
proof -
  define ps where "ps = onDeepUndeclaredKey_props Delete (onDeepUndeclaredKey_props Reject
             [(''issuer'', Required, TStringUrl),
              (''client_id'', Required, TString),
              (''client_secret'', Required, TUnion TString TNull),
              (''client_secret_path'', Optional, TString),
              (''token_endpoint_auth_method'', Required, authMethod),
              (''redirect_uri'', Optional, TStringUrl),
              (''user_storage_file'', Default (JStr ''/var/lib/headplane/users.json''), TString),
              (''disable_api_key_login'', Required, stringToBool),
              (''headscale_api_key'', Required, TString),
              (''headscale_api_key_path'', Optional, TString),
              (''strict_validation'', Default (JBool True), stringToBool)])"
  have ty: "onDeepUndeclaredKey Delete oidcConfig = TPipe (TObject ps Delete) OidcSecrets"
    by (simp add: oidcConfig_def ps_def)
  have dist: "distinct (map fst ps)" by (simp add: ps_def)
  have keys: "{''client_secret'', ''client_secret_path'', ''headscale_api_key'', ''headscale_api_key_path''}
      \<subseteq> fst ` set ps"
    by (auto simp: ps_def)
  have tys: "map_of ps ''client_secret'' = Some (Required, TUnion TString TNull)"
    "map_of ps ''client_secret_path'' = Some (Optional, TString)"
    "map_of ps ''headscale_api_key'' = Some (Required, TString)"
    "map_of ps ''headscale_api_key_path'' = Some (Optional, TString)"
    by (simp_all add: ps_def)
  have free: "throws_free_props ps"
    by (simp add: ps_def stringToBool_def authMethod_def)
  define kv where "kv = delete_undeclared ps Delete (own_entries ov)"
  have obj: "typeof_object ov \<and> ov \<noteq> JNull"
    using chk unfolding ty by (simp add: check_object_shape)
  from throws_free_morph(2) [OF free, of L kv] obtain kv' where kv': "morph_props L ps kv = Inr kv'" ..
  have same: "map_of kv' k = map_of (own_entries ov) k"
    if "k \<in> {''client_secret'', ''client_secret_path'', ''headscale_api_key'', ''headscale_api_key_path''}" for k
  proof -
    have "map_of kv k = map_of (own_entries ov) k"
      using that keys by (auto simp: kv_def map_of_delete_undeclared)
    moreover have "map_of kv' k = map_of kv k"
      using that tys
      by (auto intro!: morph_props_unchanged [OF kv' dist])
    ultimately show ?thesis by simp
  qed
  have m: "morph L (TObject ps Delete) ov = Inr (if kv' = own_entries ov then ov else JObj kv')"
    using obj kv' by (simp add: kv_def)
  have g: "get_prop kv' k = field ov k"
    if "k \<in> {''client_secret'', ''client_secret_path'', ''headscale_api_key'', ''headscale_api_key_path''}" for k
    using same [OF that] by (simp add: get_prop_def field_def)
  have "(\<exists>out. morph L (onDeepUndeclaredKey Delete oidcConfig) ov = Inr out) \<longleftrightarrow>
     loose_null (get_prop kv' ''client_secret'') \<noteq> loose_null (get_prop kv' ''client_secret_path'')
     \<and> loose_null (get_prop kv' ''headscale_api_key'') \<noteq> loose_null (get_prop kv' ''headscale_api_key_path'')"
    unfolding ty by (simp add: m del: morph.simps(3))
  then show ?thesis by (simp add: g)
qed

text \<open>The document: its five properties after the root's rule has been applied.\<close>

lemma headplaneConfig_unfold:
  "headplaneConfig =
     TObject
       [(''debug'', Required, stringToBool),
        (''server'', Required, onDeepUndeclaredKey Delete serverConfig),
        (''oidc'', Optional, onDeepUndeclaredKey Delete oidcConfig),
        (''integration'', Optional, onDeepUndeclaredKey Delete integrationConfig),
        (''headscale'', Required, onDeepUndeclaredKey Delete headscaleConfig)]
       Delete"
  by (simp add: headplaneConfig_def stringToBool_def)

lemma throws_free_sections:
  "throws_free stringToBool"
  "throws_free (onDeepUndeclaredKey Delete integrationConfig)"
  "throws_free (onDeepUndeclaredKey Delete headscaleConfig)"
  by (simp_all add: throws_free_onDeep stringToBool_def integrationConfig_def headscaleConfig_def
      dockerConfig_def kubernetesConfig_def procConfig_def containerLabel_def)

lemma validate_Ok_iff:
  "validate L t v = Ok out \<longleftrightarrow> check L t v = [] \<and> morph L t v = Inr out"
  by (auto simp: validate_def split: list.splits sum.splits)

lemma headscale_section:
  assumes chk: "check L (onDeepUndeclaredKey Delete headscaleConfig) h = []"
    and m: "morph L (onDeepUndeclaredKey Delete headscaleConfig) h = Inr h'"
    and u: "field h ''url'' = JStr u"
  shows "field h' ''url'' = strip_slash (JStr u)"
proof -
  define ps where "ps = onDeepUndeclaredKey_props Delete (onDeepUndeclaredKey_props Reject
          [(''url'', Required, TPipe TStringUrl HeadscaleUrl),
           (''tls_cert_path'', Optional, TString),
           (''public_url'', Optional, TStringUrl),
           (''config_path'', Optional, TString),
           (''config_strict'', Required, stringToBool)])"
  have ty: "onDeepUndeclaredKey Delete headscaleConfig = TObject ps Delete"
    by (simp add: headscaleConfig_def ps_def)
  have dist: "distinct (map fst ps)" by (simp add: ps_def)
  have url: "map_of ps ''url'' = Some (Required, TPipe TStringUrl HeadscaleUrl)"
    by (simp add: ps_def)
  have obj: "typeof_object h \<and> h \<noteq> JNull"
    using chk unfolding ty by (rule check_object_shape)
  from m obtain kv' where kv': "morph_props L ps (delete_undeclared ps Delete (own_entries h)) = Inr kv'"
    and h': "h' = (if kv' = own_entries h then h else JObj kv')"
    unfolding ty using obj by (auto split: sum.splits)
  from u have present: "map_of (own_entries h) ''url'' = Some (JStr u)"
    by (auto simp: field_def get_prop_def split: option.splits)
  have "map_of (delete_undeclared ps Delete (own_entries h)) ''url'' = Some (JStr u)"
    using present by (simp add: map_of_delete_undeclared ps_def)
  with morph_props_map_of [OF kv' dist, of "''url''"] url
  have "map_of kv' ''url'' = Some (strip_slash (JStr u))" by simp
  moreover have "own_entries h' = kv'" by (simp add: h')
  ultimately show ?thesis by (simp add: field_def get_prop_def)
qed

lemma document_sections:
  assumes "validate L headplaneConfig (JObj kv) = Ok out"
    and "(k, kind, t) \<in> set
       [(''debug'', Required, stringToBool),
        (''server'', Required, onDeepUndeclaredKey Delete serverConfig),
        (''oidc'', Optional, onDeepUndeclaredKey Delete oidcConfig),
        (''integration'', Optional, onDeepUndeclaredKey Delete integrationConfig),
        (''headscale'', Required, onDeepUndeclaredKey Delete headscaleConfig)]"
    and "map_of kv k = Some v"
  shows "check L t v = [] \<and> (\<exists>v'. morph L t v = Inr v' \<and> field out k = v')"
proof -
  define ps where "ps =
       [(''debug'', Required, stringToBool),
        (''server'', Required, onDeepUndeclaredKey Delete serverConfig),
        (''oidc'', Optional, onDeepUndeclaredKey Delete oidcConfig),
        (''integration'', Optional, onDeepUndeclaredKey Delete integrationConfig),
        (''headscale'', Required, onDeepUndeclaredKey Delete headscaleConfig)]"
  have ty: "headplaneConfig = TObject ps Delete"
    by (simp add: headplaneConfig_unfold ps_def)
  have dist: "distinct (map fst ps)" by (simp add: ps_def)
  have mem: "(k, kind, t) \<in> set ps" using assms(2) by (simp add: ps_def)
  then have k: "k \<in> fst ` set ps" by force
  from mem dist have mp: "map_of ps k = Some (kind, t)" by simp
  from assms(1) have chk: "check_props L ps kv = []"
    and m: "morph L (TObject ps Delete) (JObj kv) = Inr out"
    unfolding ty by (simp_all add: validate_Ok_iff)
  from m obtain kv' where kv': "morph_props L ps (delete_undeclared ps Delete kv) = Inr kv'"
    and out: "own_entries out = kv'"
    by (auto split: sum.splits if_splits)
  have pres: "map_of (delete_undeclared ps Delete kv) k = Some v"
    using k assms(3) by (simp add: map_of_delete_undeclared)
  from morph_props_present [OF kv' dist mem pres] obtain v' where v': "morph L t v = Inr v'" ..
  with morph_props_map_of [OF kv' dist, of k] mp pres have "map_of kv' k = Some v'" by simp
  with out have "field out k = v'" by (simp add: field_def get_prop_def)
  moreover from check_props_empty [OF chk mem] assms(3) have "check L t v = []" by simp
  ultimately show ?thesis using v' by simp
qed

lemma passes_Ok: "passes r \<longleftrightarrow> (\<exists>out. r = Ok out)"
  by (cases r) (simp_all add: passes_def)

text \<open>When the full schema passes a document.\<close>

lemma passes_headplaneConfig_iff:
  "passes (validate L headplaneConfig (JObj kv)) \<longleftrightarrow>
     check L headplaneConfig (JObj kv) = []
     \<and> loose_null (field (field (JObj kv) ''server'') ''cookie_secret'')
         \<noteq> loose_null (field (field (JObj kv) ''server'') ''cookie_secret_path'')
     \<and> (\<forall>s. field (field (JObj kv) ''server'') ''cookie_secret'' = JStr s \<longrightarrow> length s = 32)
     \<and> (map_of kv ''oidc'' \<noteq> None \<longrightarrow>
          loose_null (field (field (JObj kv) ''oidc'') ''client_secret'')
            \<noteq> loose_null (field (field (JObj kv) ''oidc'') ''client_secret_path'')
          \<and> loose_null (field (field (JObj kv) ''oidc'') ''headscale_api_key'')
            \<noteq> loose_null (field (field (JObj kv) ''oidc'') ''headscale_api_key_path''))"
proof (cases "check L headplaneConfig (JObj kv) = []")
  case False
  then show ?thesis by (simp add: passes_Ok validate_Ok_iff)
next
  case chk: True
  define ps where "ps =
       [(''debug'', Required, stringToBool),
        (''server'', Required, onDeepUndeclaredKey Delete serverConfig),
        (''oidc'', Optional, onDeepUndeclaredKey Delete oidcConfig),
        (''integration'', Optional, onDeepUndeclaredKey Delete integrationConfig),
        (''headscale'', Required, onDeepUndeclaredKey Delete headscaleConfig)]"
  have ty: "headplaneConfig = TObject ps Delete"
    by (simp add: headplaneConfig_unfold ps_def)
  have dist: "distinct (map fst ps)" by (simp add: ps_def)
  define kv0 where "kv0 = delete_undeclared ps Delete kv"
  have kv0: "map_of kv0 k = map_of kv k" if "k \<in> fst ` set ps" for k
    using that by (simp add: kv0_def map_of_delete_undeclared)
  have chk_props: "check_props L ps kv = []"
    using chk unfolding ty by simp
  from check_props_empty [OF chk_props, of "''server''" Required "onDeepUndeclaredKey Delete serverConfig"]
  obtain sv where sv: "map_of kv ''server'' = Some sv"
    and sv_chk: "check L (onDeepUndeclaredKey Delete serverConfig) sv = []"
    by (cases "map_of kv ''server''") (auto simp: ps_def)
  have f_sv: "field (JObj kv) ''server'' = sv"
    by (simp add: field_def get_prop_def sv)
  have ov_chk: "check L (onDeepUndeclaredKey Delete oidcConfig) ov = []"
    if "map_of kv ''oidc'' = Some ov" for ov
    using check_props_empty [OF chk_props, of "''oidc''" Optional "onDeepUndeclaredKey Delete oidcConfig"] that
    by (auto simp: ps_def)
  have morph_iff: "(\<exists>out. morph L headplaneConfig (JObj kv) = Inr out) \<longleftrightarrow>
      (\<exists>kv'. morph_props L ps kv0 = Inr kv')"
    unfolding ty by (auto simp: kv0_def split: sum.splits)
  have "(\<exists>kv'. morph_props L ps kv0 = Inr kv') \<longleftrightarrow>
      (\<exists>out. morph L (onDeepUndeclaredKey Delete serverConfig) sv = Inr out)
      \<and> (\<forall>ov. map_of kv ''oidc'' = Some ov \<longrightarrow>
            (\<exists>out. morph L (onDeepUndeclaredKey Delete oidcConfig) ov = Inr out))"
    (is "?lhs \<longleftrightarrow> ?rhs")
  proof
    assume ?lhs
    then obtain kv' where kv': "morph_props L ps kv0 = Inr kv'" ..
    have "\<exists>out. morph L (onDeepUndeclaredKey Delete serverConfig) sv = Inr out"
      by (rule morph_props_present [OF kv' dist, of "''server''" Required])
         (simp_all add: ps_def kv0 sv)
    moreover have "\<exists>out. morph L (onDeepUndeclaredKey Delete oidcConfig) ov = Inr out"
      if "map_of kv ''oidc'' = Some ov" for ov
      by (rule morph_props_present [OF kv' dist, of "''oidc''" Optional])
         (simp_all add: ps_def kv0 that)
    ultimately show ?rhs by blast
  next
    assume r: ?rhs
    have "\<nexists>e. morph_props L ps kv0 = Inl e"
    proof
      assume "\<exists>e. morph_props L ps kv0 = Inl e"
      then obtain e where "morph_props L ps kv0 = Inl e" ..
      from morph_props_Inl [OF this dist] obtain k kind t v where
        *: "(k, kind, t) \<in> set ps" "map_of kv0 k = Some v" "morph L t v = Inl e" by blast
      from *(1) have "k \<in> fst ` set ps" by force
      with *(2) kv0 have kvk: "map_of kv k = Some v" by simp
      from *(1) consider
          "t = stringToBool"
        | "k = ''server''" "t = onDeepUndeclaredKey Delete serverConfig"
        | "k = ''oidc''" "t = onDeepUndeclaredKey Delete oidcConfig"
        | "t = onDeepUndeclaredKey Delete integrationConfig"
        | "t = onDeepUndeclaredKey Delete headscaleConfig"
        by (auto simp: ps_def)
      then show False
      proof cases
        case 1
        with throws_free_morph(1) [OF throws_free_sections(1), of L v] *(3) show False by simp
      next
        case 2
        with kvk sv r *(3) show False by auto
      next
        case 3
        with kvk r *(3) show False by auto
      next
        case 4
        with throws_free_morph(1) [OF throws_free_sections(2), of L v] *(3) show False by simp
      next
        case 5
        with throws_free_morph(1) [OF throws_free_sections(3), of L v] *(3) show False by simp
      qed
    qed
    then show ?lhs by (cases "morph_props L ps kv0") auto
  qed
  also have "(\<exists>out. morph L (onDeepUndeclaredKey Delete serverConfig) sv = Inr out) \<longleftrightarrow>
     loose_null (field sv ''cookie_secret'') \<noteq> loose_null (field sv ''cookie_secret_path'')
     \<and> (\<forall>s. field sv ''cookie_secret'' = JStr s \<longrightarrow> length s = 32)"
    by (rule server_section [OF sv_chk])
  finally have main: "(\<exists>kv'. morph_props L ps kv0 = Inr kv') \<longleftrightarrow>
     (loose_null (field sv ''cookie_secret'') \<noteq> loose_null (field sv ''cookie_secret_path'')
     \<and> (\<forall>s. field sv ''cookie_secret'' = JStr s \<longrightarrow> length s = 32))
     \<and> (\<forall>ov. map_of kv ''oidc'' = Some ov \<longrightarrow>
            (\<exists>out. morph L (onDeepUndeclaredKey Delete oidcConfig) ov = Inr out))" .
  have oidc: "(\<forall>ov. map_of kv ''oidc'' = Some ov \<longrightarrow>
            (\<exists>out. morph L (onDeepUndeclaredKey Delete oidcConfig) ov = Inr out)) \<longleftrightarrow>
     (map_of kv ''oidc'' \<noteq> None \<longrightarrow>
          loose_null (field (field (JObj kv) ''oidc'') ''client_secret'')
            \<noteq> loose_null (field (field (JObj kv) ''oidc'') ''client_secret_path'')
          \<and> loose_null (field (field (JObj kv) ''oidc'') ''headscale_api_key'')
            \<noteq> loose_null (field (field (JObj kv) ''oidc'') ''headscale_api_key_path''))"
  proof (cases "map_of kv ''oidc''")
    case None
    then show ?thesis by simp
  next
    case (Some ov)
    then have "field (JObj kv) ''oidc'' = ov" by (simp add: field_def get_prop_def)
    with Some oidc_section [OF ov_chk [OF Some]] show ?thesis by simp
  qed
  have "passes (validate L headplaneConfig (JObj kv)) \<longleftrightarrow>
     (\<exists>kv'. morph_props L ps kv0 = Inr kv')"
    using chk morph_iff by (simp add: passes_Ok validate_Ok_iff)
  with main oidc f_sv chk show ?thesis by simp
qed

lemma oidc_api_key_is_string:
  assumes "check L headplaneConfig (JObj kv) = []" and "map_of kv ''oidc'' = Some ov"
  shows "\<exists>s. field ov ''headscale_api_key'' = JStr s"
proof -
  define ps where "ps = onDeepUndeclaredKey_props Delete (onDeepUndeclaredKey_props Reject
             [(''issuer'', Required, TStringUrl),
              (''client_id'', Required, TString),
              (''client_secret'', Required, TUnion TString TNull),
              (''client_secret_path'', Optional, TString),
              (''token_endpoint_auth_method'', Required, authMethod),
              (''redirect_uri'', Optional, TStringUrl),
              (''user_storage_file'', Default (JStr ''/var/lib/headplane/users.json''), TString),
              (''disable_api_key_login'', Required, stringToBool),
              (''headscale_api_key'', Required, TString),
              (''headscale_api_key_path'', Optional, TString),
              (''strict_validation'', Default (JBool True), stringToBool)])"
  have ty: "onDeepUndeclaredKey Delete oidcConfig = TPipe (TObject ps Delete) OidcSecrets"
    by (simp add: oidcConfig_def ps_def)
  have "check_props L
       [(''debug'', Required, stringToBool),
        (''server'', Required, onDeepUndeclaredKey Delete serverConfig),
        (''oidc'', Optional, onDeepUndeclaredKey Delete oidcConfig),
        (''integration'', Optional, onDeepUndeclaredKey Delete integrationConfig),
        (''headscale'', Required, onDeepUndeclaredKey Delete headscaleConfig)] kv = []"
    using assms(1) unfolding headplaneConfig_unfold by simp
  from check_props_empty [OF this, of "''oidc''" Optional "onDeepUndeclaredKey Delete oidcConfig"] assms(2)
  have "check L (TObject ps Delete) ov = []"
    unfolding ty by simp
  then have "check_props L ps (own_entries ov) = []"
    by (rule check_object_props)
  from check_props_empty [OF this, of "''headscale_api_key''" Required TString]
  show ?thesis
    by (auto simp: ps_def field_def get_prop_def mismatch_def split: option.splits jsval.splits if_splits)
qed

subsection \<open>The loader\<close>

lemma trim_decompose:
  "\<exists>a b. s = a @ trim s @ b \<and> (\<forall>c\<in>set a. is_space c) \<and> (\<forall>c\<in>set b. is_space c)"
proof -
  define a where "a = takeWhile is_space s"
  define r where "r = dropWhile is_space s"
  define b where "b = rev (takeWhile is_space (rev r))"
  have "s = a @ r" by (simp add: a_def r_def)
  moreover have "rev r = takeWhile is_space (rev r) @ dropWhile is_space (rev r)" by simp
  then have "r = rev (dropWhile is_space (rev r)) @ b"
    unfolding b_def by (metis rev_append rev_rev_ident)
  then have "r = trim s @ b" by (simp add: trim_def r_def)
  moreover have "\<forall>c\<in>set a. is_space c" unfolding a_def by (metis set_takeWhileD)
  moreover have "\<forall>c\<in>set b. is_space c" unfolding b_def by (metis set_rev set_takeWhileD)
  ultimately show ?thesis by blast
qed

lemma trim_ends:
  assumes "trim s \<noteq> []"
  shows "\<not> is_space (hd (trim s)) \<and> \<not> is_space (last (trim s))"
proof -
  define r where "r = dropWhile is_space s"
  have t: "trim s = rev (dropWhile is_space (rev r))" by (simp add: trim_def r_def)
  with assms have ne: "dropWhile is_space (rev r) \<noteq> []" by simp
  then have "\<not> is_space (hd (dropWhile is_space (rev r)))" by (rule hd_dropWhile)
  then have l: "\<not> is_space (last (trim s))" using ne by (simp add: t last_rev)
  from ne have "rev r \<noteq> []" by auto
  then have rne: "r \<noteq> []" by simp
  then have hr: "\<not> is_space (hd r)" unfolding r_def by (rule hd_dropWhile)
  have "\<exists>b. r = trim s @ b"
  proof -
    have "rev r = takeWhile is_space (rev r) @ dropWhile is_space (rev r)" by simp
    then have "r = rev (dropWhile is_space (rev r)) @ rev (takeWhile is_space (rev r))"
      by (metis rev_append rev_rev_ident)
    then show ?thesis using t by auto
  qed
  then obtain b where "r = trim s @ b" ..
  with assms have "hd r = hd (trim s)" by (metis hd_append2)
  with hr l show ?thesis by simp
qed

lemma trim_example: "trim '' abc  '' = ''abc''"
  by (simp add: trim_def is_space_def)

lemma resolve_secret_events:
  "set (snd (resolve_secret w s pk ik req config)) \<subseteq> range ReadFile"
  by (auto simp: resolve_secret_def Let_def split: jsval.splits prod.splits sum.splits)

lemma and_then_events:
  "set (snd (and_then r f)) \<subseteq> set (snd r) \<union> (\<Union>x. set (snd (f x)))"
  by (auto simp: and_then_def split: outcome.splits)

lemma load_and_resolve_events:
  "set (snd (load_and_resolve L w p)) \<subseteq> range Access \<union> range ReadFile"
proof -
  have step: "set (snd (and_then r (resolve_secret w s pk ik req))) \<subseteq> range Access \<union> range ReadFile"
    if "set (snd r) \<subseteq> range Access \<union> range ReadFile" for r s pk ik req
    using and_then_events [of r "resolve_secret w s pk ik req"] resolve_secret_events [of w s pk ik req] that
    by blast
  have three: "set (snd (and_then
                  (and_then
                     (and_then (Returned config, [Access p, ReadFile p])
                        (resolve_secret w ''server'' ''cookie_secret_path'' ''cookie_secret'' (Some 32)))
                     (resolve_secret w ''oidc'' ''client_secret_path'' ''client_secret'' None))
                  (resolve_secret w ''oidc'' ''headscale_api_key_path'' ''headscale_api_key'' None)))
       \<subseteq> range Access \<union> range ReadFile" for config
    by (intro step) auto
  show ?thesis
  proof (cases "validateConfig L
                   (JObj (AList.update ''debug'' (JBool (debugEnabled w)) (own_entries (loadConfigFile w p))))")
    case (Ok config)
    with three [of config] show ?thesis
      by (auto simp: load_and_resolve_def Let_def)
  qed (auto simp: load_and_resolve_def Let_def)
qed

lemma stages_ignore_dotenv:
  "validateConfigPath (w\<lparr>dotenv_environ := e\<rparr>) = validateConfigPath w"
  "loadConfigFile (w\<lparr>dotenv_environ := e\<rparr>) = loadConfigFile w"
  "resolve_secret (w\<lparr>dotenv_environ := e\<rparr>) = resolve_secret w"
  by (simp_all add: fun_eq_iff validateConfigPath_def loadConfigFile_def resolve_secret_def Let_def
      cong: option.case_cong jsval.case_cong prod.case_cong sum.case_cong if_cong)

lemma get_prop_update:
  "get_prop (AList.update k v kv) k' = (if k' = k then v else get_prop kv k')"
  by (simp add: get_prop_def update_conv')

lemma merge_keys_map_of:
  assumes "distinct (map fst src)"
  shows "map_of (merge_keys res src) k =
     (case map_of src k of
        None \<Rightarrow> map_of res k
      | Some v \<Rightarrow>
          if v = JUndefined then map_of res k
          else if typeof_object v then Some (deepMerge (get_prop res k) v)
          else Some v)"
  using assms
proof (induction src arbitrary: res)
  case Nil
  then show ?case by simp
next
  case (Cons e src)
  obtain k0 v0 where e: "e = (k0, v0)" by (cases e)
  from Cons.prems e have notin: "map_of src k0 = None" and dist: "distinct (map fst src)"
    by (auto simp: map_of_eq_None_iff)
  show ?case
  proof (cases "k = k0")
    case True
    with notin Cons.IH [OF dist] e show ?thesis
      by (simp add: update_conv')
  next
    case False
    with Cons.IH [OF dist] e show ?thesis
      by (auto simp: update_conv' get_prop_update split: option.splits)
  qed
qed

lemma find_first_prefix: "startsWith s pat \<Longrightarrow> find_first pat s = Some 0"
  by (cases s) (auto simp: startsWith_def)

lemma replace_first_prefix:
  "startsWith key pat \<Longrightarrow> replace_first pat [] key = drop (length pat) key"
  by (simp add: replace_first_def find_first_prefix)

lemma configPath_strips_prefix:
  "startsWith key ''HEADPLANE_'' \<Longrightarrow>
     configPath key = split_dunder [] (toLowerCase (drop (length ''HEADPLANE_'') key))"
  unfolding configPath_def by (subst replace_first_prefix) simp_all

lemma configPath_example: "configPath ''HEADPLANE_OIDC__CLIENT_ID'' = [''oidc'', ''client_id'']"
  by code_simp

lemma split_dunder_nonempty: "split_dunder cur s \<noteq> []"
  by (induction cur s rule: split_dunder.induct) auto

lemma configPath_nonempty: "configPath key \<noteq> []"
  by (simp add: configPath_def split_dunder_nonempty)

lemma env_vars_set:
  "set (env_vars rootKeys env) =
     {e \<in> set env. snd e \<noteq> [] \<and> startsWith (fst e) ''HEADPLANE_'' \<and> fst e \<notin> set rootKeys}"
  by (auto simp: env_vars_def)

lemma env_vars_drop_root:
  "env_vars rootKeys (filter (\<lambda>e. fst e \<notin> set rootKeys) env) = env_vars rootKeys env"
  by (induction env) (auto simp: env_vars_def)

text \<open>The split at the delimiter.\<close>

lemma has_dunder_iff: "has_dunder s \<longleftrightarrow> (\<exists>a b. s = a @ ''__'' @ b)"
proof (induction s rule: has_dunder.induct)
  case (1 c d rest)
  show ?case
  proof
    assume "has_dunder (c # d # rest)"
    then consider "c = CHR ''_'' \<and> d = CHR ''_''" | "has_dunder (d # rest)" by auto
    then show "\<exists>a b. c # d # rest = a @ ''__'' @ b"
    proof cases
      case 1
      then have "c # d # rest = [] @ ''__'' @ rest" by simp
      then show ?thesis by blast
    next
      case 2
      with 1 obtain a b where "d # rest = a @ ''__'' @ b" by blast
      then have "c # d # rest = (c # a) @ ''__'' @ b" by simp
      then show ?thesis by blast
    qed
  next
    assume "\<exists>a b. c # d # rest = a @ ''__'' @ b"
    then obtain a b where ab: "c # d # rest = a @ ''__'' @ b" by blast
    show "has_dunder (c # d # rest)"
    proof (cases a)
      case Nil
      with ab show ?thesis by simp
    next
      case (Cons x a')
      with ab have "d # rest = a' @ ''__'' @ b" by simp
      then have "\<exists>a b. d # rest = a @ ''__'' @ b" by blast
      with 1 have "has_dunder (d # rest)" by simp
      then show ?thesis by simp
    qed
  qed
qed (auto simp: append_eq_Cons_conv)

lemma has_dunder_snoc:
  "has_dunder (xs @ [c]) \<longleftrightarrow> has_dunder xs \<or> (xs \<noteq> [] \<and> last xs = CHR ''_'' \<and> c = CHR ''_'')"
  by (induction xs rule: has_dunder.induct) auto

lemma split_dunder_join: "join_dunder (split_dunder cur s) = cur @ s"
proof (induction cur s rule: split_dunder.induct)
  case (3 cur c d rest)
  obtain x xs where "split_dunder [] rest = x # xs"
    using split_dunder_nonempty [of "[]" rest] by (cases "split_dunder [] rest") auto
  with 3 show ?case by auto
qed simp_all

lemma split_dunder_pieces:
  assumes "\<not> has_dunder cur" and "cur = [] \<or> last cur \<noteq> CHR ''_'' \<or> s = [] \<or> hd s \<noteq> CHR ''_''"
  shows "(\<forall>x\<in>set (split_dunder cur s). \<not> has_dunder x)
     \<and> (\<forall>x\<in>set (butlast (split_dunder cur s)). x = [] \<or> last x \<noteq> CHR ''_'')"
  using assms
proof (induction cur s rule: split_dunder.induct)
  case (1 cur)
  then show ?case by simp
next
  case (2 cur c)
  then show ?case by (auto simp: has_dunder_snoc)
next
  case (3 cur c d rest)
  show ?case
  proof (cases "c = CHR ''_'' \<and> d = CHR ''_''")
    case True
    with 3 split_dunder_nonempty [of "[]" rest] show ?thesis by auto
  next
    case False
    have "\<not> has_dunder (cur @ [c])" using "3.prems" by (auto simp: has_dunder_snoc)
    moreover have "cur @ [c] = [] \<or> last (cur @ [c]) \<noteq> CHR ''_'' \<or> d # rest = [] \<or> hd (d # rest) \<noteq> CHR ''_''"
      using False by auto
    ultimately show ?thesis using "3.IH"(2) False by auto
  qed
qed

lemma split_dunder_piece: "\<not> has_dunder x \<Longrightarrow> split_dunder cur x = [cur @ x]"
  by (induction cur x rule: split_dunder.induct) auto

lemma split_dunder_at:
  "\<not> has_dunder x \<Longrightarrow> x = [] \<or> last x \<noteq> CHR ''_'' \<Longrightarrow>
     split_dunder cur (x @ ''__'' @ s) = (cur @ x) # split_dunder [] s"
proof (induction cur x rule: split_dunder.induct)
  case (1 cur)
  then show ?case by simp
next
  case (2 cur c)
  then show ?case by simp
next
  case (3 cur c d rest)
  then show ?case by (auto split: if_splits)
qed

lemma split_dunder_unique:
  "splits_at_dunder s p \<Longrightarrow> split_dunder [] s = p"
proof (induction p arbitrary: s rule: join_dunder.induct)
  case 1
  then show ?case by (simp add: splits_at_dunder_def)
next
  case (2 x)
  show ?case
    using "2.prems" split_dunder_piece [of x "[]"] by (auto simp: splits_at_dunder_def)
next
  case (3 x t ts)
  from "3.prems" have s: "s = x @ ''__'' @ join_dunder (t # ts)"
    and x: "\<not> has_dunder x" "x = [] \<or> last x \<noteq> CHR ''_''"
    and rest: "splits_at_dunder (join_dunder (t # ts)) (t # ts)"
    by (auto simp: splits_at_dunder_def)
  from "3.IH" [OF rest] split_dunder_at [OF x, of "[]" "join_dunder (t # ts)"] s
  show ?case by simp
qed

lemma split_dunder_iff: "split_dunder [] s = p \<longleftrightarrow> splits_at_dunder s p"
proof
  assume "split_dunder [] s = p"
  with split_dunder_join [of "[]" s] split_dunder_pieces [of "[]" s] split_dunder_nonempty [of "[]" s]
  show "splits_at_dunder s p" by (auto simp: splits_at_dunder_def)
qed (rule split_dunder_unique)

lemma configPath_iff:
  "startsWith key ''HEADPLANE_'' \<Longrightarrow>
     configPath key = p \<longleftrightarrow> splits_at_dunder (toLowerCase (drop (length ''HEADPLANE_'') key)) p"
  by (simp only: configPath_strips_prefix split_dunder_iff)

lemma no_earlier_prefix_append:
  "no_earlier_prefix (xs @ ys) \<longleftrightarrow>
     no_earlier_prefix xs \<and> no_earlier_prefix ys \<and> (\<forall>p\<in>set xs. \<forall>q\<in>set ys. \<not> strict_prefix p q)"
  by (induction xs) auto

lemma slot_at_Nil [simp]: "slot_at (JObj kv) [] = Node"
  by (simp add: slot_at_def)

lemma slot_at_Cons:
  "slot_at (JObj kv) (k # ks) = (case map_of kv k of None \<Rightarrow> Absent | Some x \<Rightarrow>
      (if ks = [] then (case x of JStr s \<Rightarrow> Text s | JObj sub \<Rightarrow> Node | _ \<Rightarrow> Other)
       else (case x of JObj sub \<Rightarrow> slot_at (JObj sub) ks | _ \<Rightarrow> Absent)))"
  by (cases ks) (auto simp: slot_at_def split: option.splits jsval.splits)

lemma slot_at_empty: "slot_at (JObj []) p = (if p = [] then Node else Absent)"
  by (cases p) (simp_all add: slot_at_Cons)

lemma written_Text: "written done p = Text v \<Longrightarrow> (p, v) \<in> set done"
  by (induction "done") (auto split: if_splits)

lemma written_not_Other: "written done p \<noteq> Other"
  by (induction "done") auto

text \<open>One assignment of the loop of \<^verbatim>\<open>coalesceEnv\<close>, and the loop.\<close>

lemma assign_path_slots:
  assumes "q \<noteq> []" and "last q \<noteq> ''__proto__''"
    and "\<forall>k\<in>set (butlast q). k \<notin> set object_prototype_names"
    and "\<forall>r. r \<noteq> [] \<and> strict_prefix r q \<longrightarrow> slot_at (JObj cur) r = Absent \<or> slot_at (JObj cur) r = Node"
  shows "\<exists>cur'. assign_path q val cur = Inr cur' \<and>
     (\<forall>p. slot_at (JObj cur') p =
        (if q = p then Text val
         else if strict_prefix p q then Node
         else if strict_prefix q p then Absent
         else slot_at (JObj cur) p))"
  using assms
proof (induction q val cur rule: assign_path.induct)
  case (1 val cur)
  then show ?case by simp
next
  case (2 k val cur)
  have "slot_at (JObj (AList.update k (JStr val) cur)) p =
        (if [k] = p then Text val
         else if strict_prefix p [k] then Node
         else if strict_prefix [k] p then Absent
         else slot_at (JObj cur) p)" for p
  proof (cases p)
    case Nil
    then show ?thesis by simp
  next
    case (Cons j js)
    then show ?thesis
      by (cases js) (auto simp: slot_at_Cons update_conv' split: option.splits)
  qed
  with 2 show ?case by simp
next
  case (3 k k' ks val cur)
  define sub where "sub = (case map_of cur k of Some (JObj s) \<Rightarrow> s | _ \<Rightarrow> [])"
  have k: "k \<notin> set object_prototype_names" using "3.prems"(3) by simp
  have notstr: "map_of cur k = None \<or> (\<exists>s. map_of cur k = Some (JObj s))"
  proof -
    have "[k] \<noteq> [] \<and> strict_prefix [k] (k # k' # ks)" by simp
    with "3.prems"(4) have "slot_at (JObj cur) [k] = Absent \<or> slot_at (JObj cur) [k] = Node" by blast
    then show ?thesis
      by (auto simp: slot_at_Cons split: option.splits jsval.splits)
  qed
  have sub_slots: "slot_at (JObj sub) r = slot_at (JObj cur) (k # r)" if "r \<noteq> []" for r
    using notstr that by (auto simp: sub_def slot_at_Cons slot_at_empty)
  have pre: "\<forall>r. r \<noteq> [] \<and> strict_prefix r (k' # ks) \<longrightarrow>
      slot_at (JObj sub) r = Absent \<or> slot_at (JObj sub) r = Node"
  proof (intro allI impI)
    fix r assume r: "r \<noteq> [] \<and> strict_prefix r (k' # ks)"
    then have "k # r \<noteq> [] \<and> strict_prefix (k # r) (k # k' # ks)" by simp
    with "3.prems"(4) have "slot_at (JObj cur) (k # r) = Absent \<or> slot_at (JObj cur) (k # r) = Node"
      by blast
    with sub_slots r show "slot_at (JObj sub) r = Absent \<or> slot_at (JObj sub) r = Node" by simp
  qed
  have rec: "\<exists>sub'. assign_path (k' # ks) val sub = Inr sub' \<and>
     (\<forall>p. slot_at (JObj sub') p =
        (if k' # ks = p then Text val
         else if strict_prefix p (k' # ks) then Node
         else if strict_prefix (k' # ks) p then Absent
         else slot_at (JObj sub) p))"
  proof (cases "map_of cur k")
    case None
    then have s: "sub = []" by (simp add: sub_def)
    show ?thesis
      unfolding s
      by (rule "3.IH"(1) [OF None k]) (use "3.prems" pre s in auto)
  next
    case (Some v)
    with notstr obtain s where v: "v = JObj s" by auto
    with Some have s: "sub = s" by (simp add: sub_def)
    show ?thesis
      unfolding s
      by (rule "3.IH"(2) [OF Some v]) (use "3.prems" pre s in auto)
  qed
  then obtain sub' where sub': "assign_path (k' # ks) val sub = Inr sub'"
    and slots: "\<And>p. slot_at (JObj sub') p =
        (if k' # ks = p then Text val
         else if strict_prefix p (k' # ks) then Node
         else if strict_prefix (k' # ks) p then Absent
         else slot_at (JObj sub) p)"
    by blast
  have res: "assign_path (k # k' # ks) val cur = Inr (AList.update k (JObj sub') cur)"
    using notstr sub' k by (auto simp: sub_def)
  have "slot_at (JObj (AList.update k (JObj sub') cur)) p =
        (if k # k' # ks = p then Text val
         else if strict_prefix p (k # k' # ks) then Node
         else if strict_prefix (k # k' # ks) p then Absent
         else slot_at (JObj cur) p)" for p
  proof (cases p)
    case Nil
    then show ?thesis by simp
  next
    case (Cons j js)
    show ?thesis
    proof (cases "j = k")
      case False
      with Cons show ?thesis by (simp add: slot_at_Cons update_conv')
    next
      case True
      show ?thesis
      proof (cases "js = []")
        case e: True
        with Cons True show ?thesis by (simp add: slot_at_Cons update_conv')
      next
        case ne: False
        with Cons True slots [of js] sub_slots [OF ne] show ?thesis
          by (simp add: slot_at_Cons update_conv')
      qed
    qed
  qed
  with res show ?case by blast
qed

lemma assign_path_through_text:
  "slot_at (JObj cur) r = Text s \<Longrightarrow> strict_prefix r q \<Longrightarrow> assign_path q val cur = Inl TypeError"
proof (induction q val cur arbitrary: r rule: assign_path.induct)
  case (1 val cur)
  then show ?case by simp
next
  case (2 k val cur)
  then show ?case by (cases r) (auto simp: slot_at_def)
next
  case (3 k k' ks val cur)
  from "3.prems" obtain r' where r: "r = k # r'" and pre: "strict_prefix r' (k' # ks)"
    by (cases r) (auto simp: slot_at_def)
  show ?case
  proof (cases "r' = []")
    case True
    with r "3.prems"(1) show ?thesis
      by (auto simp: slot_at_Cons split: option.splits jsval.splits)
  next
    case False
    with r "3.prems"(1) obtain sub where sub: "map_of cur k = Some (JObj sub)"
      and t: "slot_at (JObj sub) r' = Text s"
      by (auto simp: slot_at_Cons split: option.splits jsval.splits)
    from "3.IH"(2) [OF sub refl t pre] sub show ?thesis by simp
  qed
qed

lemma latest_prefix_is_text:
  assumes "no_earlier_prefix (rev (map fst done))" and "\<exists>e\<in>set done. strict_prefix (fst e) q"
  shows "\<exists>p v. strict_prefix p q \<and> written done p = Text v"
  using assms
proof (induction "done")
  case Nil
  then show ?case by simp
next
  case (Cons e earlier)
  show ?case
  proof (cases "strict_prefix (fst e) q")
    case True
    then have "strict_prefix (fst e) q \<and> written (e # earlier) (fst e) = Text (snd e)" by simp
    then show ?thesis by blast
  next
    case False
    from Cons.prems(1) have fine: "no_earlier_prefix (rev (map fst earlier))"
      and later: "\<forall>p\<in>fst ` set earlier. \<not> strict_prefix p (fst e)"
      by (auto simp: no_earlier_prefix_append)
    from Cons.prems(2) False have "\<exists>e\<in>set earlier. strict_prefix (fst e) q" by auto
    from Cons.IH [OF fine this] obtain p v where p: "strict_prefix p q" and w: "written earlier p = Text v"
      by blast
    from written_Text [OF w] have "p \<in> fst ` set earlier" by force
    with later have 1: "\<not> strict_prefix p (fst e)" by blast
    from p False have 2: "fst e \<noteq> p" by auto
    have 3: "\<not> strict_prefix (fst e) p"
      using p False by (metis prefix_order.less_trans)
    from 1 2 3 w have "written (e # earlier) p = Text v" by simp
    with p show ?thesis by blast
  qed
qed

lemma has_dunder_proto: "has_dunder ''__proto__''"
  by simp

lemma configPath_last: "last (configPath key) \<noteq> ''__proto__''"
proof -
  have "\<forall>x\<in>set (configPath key). \<not> has_dunder x"
    unfolding configPath_def using split_dunder_pieces [of "[]"] by simp
  moreover have "last (configPath key) \<in> set (configPath key)"
    using configPath_nonempty by simp
  ultimately show ?thesis using has_dunder_proto by metis
qed

lemma build_envConfig_slots:
  assumes "\<forall>p. slot_at (JObj cur) p = written done p"
    and "[] \<notin> fst ` set done"
    and "\<forall>e\<in>set es. \<forall>k\<in>set (butlast (configPath (fst e))). k \<notin> set object_prototype_names"
    and "no_earlier_prefix (rev (map fst done))"
  shows "if no_earlier_prefix (rev (map fst done) @ map (\<lambda>e. configPath (fst e)) es)
         then \<exists>cfg. build_envConfig es cur = Inr cfg
                \<and> (\<forall>p. slot_at (JObj cfg) p = written (rev (map path_entry es) @ done) p)
         else build_envConfig es cur = Inl TypeError"
  using assms
proof (induction es arbitrary: cur "done")
  case Nil
  then show ?case by simp
next
  case (Cons e es)
  define q where "q = configPath (fst e)"
  have q: "q \<noteq> []" "last q \<noteq> ''__proto__''"
    by (simp_all add: q_def configPath_nonempty configPath_last)
  have pe: "path_entry e = (q, snd e)" by (simp add: path_entry_def q_def)
  show ?case
  proof (cases "\<exists>d\<in>set done. strict_prefix (fst d) q")
    case True
    from latest_prefix_is_text [OF Cons.prems(4) True] obtain p v where
      "strict_prefix p q" "written done p = Text v" by blast
    with Cons.prems(1) have "assign_path q (snd e) cur = Inl TypeError"
      by (intro assign_path_through_text [of cur p v]) simp_all
    moreover from True have "\<not> no_earlier_prefix (rev (map fst done) @ map (\<lambda>e. configPath (fst e)) (e # es))"
      by (auto simp: no_earlier_prefix_append q_def)
    ultimately show ?thesis by (simp add: q_def)
  next
    case False
    have pre: "\<forall>r. r \<noteq> [] \<and> strict_prefix r q \<longrightarrow>
        slot_at (JObj cur) r = Absent \<or> slot_at (JObj cur) r = Node"
    proof (intro allI impI)
      fix r assume r: "r \<noteq> [] \<and> strict_prefix r q"
      have "written done r \<noteq> Text v" for v
      proof
        assume "written done r = Text v"
        from written_Text [OF this] r False show False by force
      qed
      with written_not_Other [of "done" r] Cons.prems(1)
      show "slot_at (JObj cur) r = Absent \<or> slot_at (JObj cur) r = Node"
        by (cases "written done r") auto
    qed
    have names: "\<forall>k\<in>set (butlast q). k \<notin> set object_prototype_names"
      using Cons.prems(3) by (simp add: q_def)
    from assign_path_slots [OF q names pre, of "snd e"] obtain cur' where
      cur': "assign_path q (snd e) cur = Inr cur'"
      and slots: "\<And>p. slot_at (JObj cur') p =
        (if q = p then Text (snd e)
         else if strict_prefix p q then Node
         else if strict_prefix q p then Absent
         else slot_at (JObj cur) p)"
      by blast
    have inv': "\<forall>p. slot_at (JObj cur') p = written ((q, snd e) # done) p"
      using slots Cons.prems(1) by simp
    have ne': "[] \<notin> fst ` set ((q, snd e) # done)"
      using q Cons.prems(2) by auto
    have names': "\<forall>e\<in>set es. \<forall>k\<in>set (butlast (configPath (fst e))). k \<notin> set object_prototype_names"
      using Cons.prems(3) by simp
    have fine': "no_earlier_prefix (rev (map fst ((q, snd e) # done)))"
      using Cons.prems(4) False by (auto simp: no_earlier_prefix_append)
    from Cons.IH [OF inv' ne' names' fine'] cur' show ?thesis
      by (simp add: pe q_def split: if_splits)
  qed
qed

lemma envConfig_of_slots:
  assumes "\<forall>e\<in>set (env_vars rootKeys env).
             \<forall>k\<in>set (butlast (configPath (fst e))). k \<notin> set object_prototype_names"
  shows "if no_earlier_prefix (map (\<lambda>e. configPath (fst e)) (env_vars rootKeys env))
         then \<exists>cfg. envConfig_of rootKeys env = Inr cfg
                \<and> (\<forall>p. slot_at (JObj cfg) p = written (rev (map path_entry (env_vars rootKeys env))) p)
         else envConfig_of rootKeys env = Inl TypeError"
  using build_envConfig_slots [of "[]" "[]" "env_vars rootKeys env"] assms
  by (simp add: envConfig_of_def slot_at_empty split: if_splits)

lemma written_latest:
  assumes "\<forall>e'\<in>set ys. \<not> prefix (fst (path_entry e')) (fst (path_entry e))
                      \<and> \<not> prefix (fst (path_entry e)) (fst (path_entry e'))"
  shows "written (rev (map path_entry (xs @ e # ys))) (fst (path_entry e)) = Text (snd e)"
  using assms
proof (induction ys rule: rev_induct)
  case Nil
  then show ?case by (simp add: path_entry_def)
next
  case (snoc y ys)
  then have "written (rev (map path_entry (xs @ e # ys))) (fst (path_entry e)) = Text (snd e)"
    by simp
  moreover from snoc.prems have "\<not> prefix (fst (path_entry y)) (fst (path_entry e))"
    "\<not> prefix (fst (path_entry e)) (fst (path_entry y))" by simp_all
  ultimately show ?case by (auto simp: strict_prefix_def)
qed

lemma envConfig_of_entries:
  assumes "\<forall>e\<in>set (env_vars rootKeys env).
          \<forall>k\<in>set (butlast (configPath (fst e))). k \<notin> set object_prototype_names"
  shows "if no_earlier_prefix (map (\<lambda>e. configPath (fst e)) (env_vars rootKeys env))
         then \<exists>envConfig. envConfig_of rootKeys env = Inr envConfig
                \<and> (\<forall>p. slot_at (JObj envConfig) p
                          = written (rev (map path_entry (env_vars rootKeys env))) p)
                \<and> (\<forall>xs e ys. env_vars rootKeys env = xs @ e # ys
                       \<and> (\<forall>e'\<in>set ys. \<not> prefix (configPath (fst e')) (configPath (fst e))
                                       \<and> \<not> prefix (configPath (fst e)) (configPath (fst e'))) \<longrightarrow>
                     slot_at (JObj envConfig) (configPath (fst e)) = Text (snd e))
         else envConfig_of rootKeys env = Inl TypeError"
proof (cases "no_earlier_prefix (map (\<lambda>e. configPath (fst e)) (env_vars rootKeys env))")
  case False
  with envConfig_of_slots [OF assms] show ?thesis by simp
next
  case True
  with envConfig_of_slots [OF assms] obtain envConfig where
    cfg: "envConfig_of rootKeys env = Inr envConfig"
    and slots: "\<And>p. slot_at (JObj envConfig) p = written (rev (map path_entry (env_vars rootKeys env))) p"
    by auto
  have "slot_at (JObj envConfig) (configPath (fst e)) = Text (snd e)"
    if "env_vars rootKeys env = xs @ e # ys"
      and "\<forall>e'\<in>set ys. \<not> prefix (configPath (fst e')) (configPath (fst e))
                      \<and> \<not> prefix (configPath (fst e)) (configPath (fst e'))"
    for xs e ys
    using written_latest [of ys e xs] that slots [of "configPath (fst e)"]
    by (simp add: path_entry_def)
  with cfg slots True show ?thesis by auto
qed

text \<open>The markers of a path.\<close>

lemma find_close_Some:
  "find_close r = Some name \<Longrightarrow>
     r = name @ CHR ''}'' # drop (Suc (length name)) r \<and> clean name"
  by (induction r arbitrary: name) (auto simp: clean_def split: if_splits)

lemma find_close_clean_append:
  "clean a \<Longrightarrow> find_close (a @ b) = (case find_close b of None \<Rightarrow> None | Some n \<Rightarrow> Some (a @ n))"
  by (induction a) (auto simp: clean_def split: option.splits)

lemma find_close_clean_brace: "clean a \<Longrightarrow> find_close (a @ CHR ''}'' # b) = Some a"
  by (simp add: find_close_clean_append)

lemma marker_name_marker: "marker_name (''${'' @ name @ ''}'') = name"
  by (simp add: marker_name_def)

lemma match_markers_shape:
  "m \<in> set (match_markers p) \<Longrightarrow> m = ''${'' @ marker_name m @ ''}''"
  by (induction p rule: match_markers.induct)
     (auto simp: marker_name_def split: if_splits option.splits)

lemma find_first_least:
  assumes "i \<le> length s" and "startsWith (drop i s) pat"
    and "\<forall>q<i. \<not> startsWith (drop q s) pat"
  shows "find_first pat s = Some i"
  using assms
proof (induction s arbitrary: i)
  case Nil
  then show ?case by (auto simp: startsWith_def)
next
  case (Cons c cs)
  show ?case
  proof (cases i)
    case 0
    with Cons.prems show ?thesis by simp
  next
    case (Suc j)
    with Cons.prems have "\<not> startsWith (c # cs) pat" by auto
    moreover have "find_first pat cs = Some j"
    proof (rule Cons.IH)
      show "j \<le> length cs" using Cons.prems(1) Suc by simp
      show "startsWith (drop j cs) pat" using Cons.prems(2) Suc by simp
      show "\<forall>q<j. \<not> startsWith (drop q cs) pat"
      proof (intro allI impI)
        fix q assume "q < j"
        then have "Suc q < i" using Suc by simp
        with Cons.prems(3) have "\<not> startsWith (drop (Suc q) (c # cs)) pat" by blast
        then show "\<not> startsWith (drop q cs) pat" by simp
      qed
    qed
    ultimately show ?thesis using Suc by simp
  qed
qed

lemma get_substitution_plain:
  "CHR ''$'' \<notin> set rep \<Longrightarrow> get_substitution matched pre post rep = rep"
  by (induction matched pre post rep rule: get_substitution.induct) auto

lemma marker_at_occurrence:
  assumes "clean name" and "startsWith s (''${'' @ name @ ''}'')"
  shows "marker_at s"
proof -
  from assms(2) obtain t where "s = (''${'' @ name @ ''}'') @ t"
    unfolding startsWith_def by (metis append_take_drop_id)
  then have "s = CHR ''$'' # CHR ''{'' # (name @ CHR ''}'' # t)" by simp
  with find_close_clean_brace [OF assms(1), of t] show ?thesis
    by (simp add: marker_at_def)
qed

lemma find_close_swap:
  assumes "clean name" and "find_close (a @ v @ r) \<noteq> None"
  shows "find_close (a @ (''${'' @ name @ ''}'') @ r) \<noteq> None"
  using assms(2)
proof (induction a)
  case Nil
  have "clean (''${'' @ name)" using assms(1) by (simp add: clean_def is_line_terminator_def)
  from find_close_clean_brace [OF this, of r] show ?case by simp
next
  case (Cons x xs)
  then show ?case by (auto split: if_splits)
qed

lemma marker_at_swap:
  assumes "clean name" and "a \<noteq> []" and "v \<noteq> []" and "CHR ''{'' \<notin> set v"
    and "marker_at (a @ v @ r)"
  shows "marker_at (a @ (''${'' @ name @ ''}'') @ r)"
proof -
  from assms(2) obtain c a' where a: "a = c # a'" by (cases a) auto
  show ?thesis
  proof (cases a')
    case Nil
    from assms(3,4) obtain x v' where "v = x # v'" "x \<noteq> CHR ''{''" by (cases v) auto
    with a Nil assms(5) show ?thesis by (simp add: marker_at_def)
  next
    case (Cons d a'')
    with a assms(5) have c: "c = CHR ''$''" "d = CHR ''{''" and f: "find_close (a'' @ v @ r) \<noteq> None"
      by (simp_all add: marker_at_def)
    from find_close_swap [OF assms(1) f] a Cons c show ?thesis
      by (simp add: marker_at_def)
  qed
qed

lemma process_env_variable: "map_of env name = Some v \<Longrightarrow> process_env env name = Variable v"
  by (simp add: process_env_def)

lemma process_env_unset:
  "map_of env name = None \<Longrightarrow> name \<notin> set object_prototype_names \<Longrightarrow> process_env env name = Unset"
  by (simp add: process_env_def)

lemma interpolate_invariant:
  assumes "\<forall>m\<in>set (match_markers rest). \<exists>v. map_of env (marker_name m) = Some v \<and> plain_value v"
    and "\<forall>q<length done. \<not> marker_at (drop q (done @ rest))"
  shows "interpolate env (match_markers rest) (done @ rest) = Inr (done @ substitute_markers env rest)"
  using assms
proof (induction rest arbitrary: "done" rule: match_markers.induct)
  case 1
  then show ?case by simp
next
  case (2 c)
  then show ?case by simp
next
  case (3 c d r)
  show ?case
  proof (cases "c = CHR ''$'' \<and> d = CHR ''{'' \<and> find_close r \<noteq> None")
    case True
    then obtain name where name: "find_close r = Some name" and cd: "c = CHR ''$''" "d = CHR ''{''"
      by auto
    define r' where "r' = drop (Suc (length name)) r"
    define m where "m = ''${'' @ name @ ''}''"
    from find_close_Some [OF name] have r: "r = name @ CHR ''}'' # r'" and cl: "clean name"
      by (simp_all add: r'_def)
    have rest: "c # d # r = m @ r'" using r cd by (simp add: m_def)
    have mm: "match_markers (c # d # r) = m # match_markers r'"
      using cd name by (simp add: m_def r'_def)
    have mn: "marker_name m = name" unfolding m_def by (rule marker_name_marker)
    from "3.prems"(1) mm mn obtain v where v: "map_of env name = Some v" and pv: "plain_value v"
      by auto
    have ff: "find_first m (done @ m @ r') = Some (length done)"
    proof (rule find_first_least)
      show "length done \<le> length (done @ m @ r')" by simp
      show "startsWith (drop (length done) (done @ m @ r')) m" by (simp add: startsWith_def)
      show "\<forall>q<length done. \<not> startsWith (drop q (done @ m @ r')) m"
      proof (intro allI impI notI)
        fix q assume q: "q < length done" and "startsWith (drop q (done @ m @ r')) m"
        then have "marker_at (drop q (done @ m @ r'))"
          using marker_at_occurrence [OF cl] by (simp add: m_def)
        with "3.prems"(2) q rest show False by simp
      qed
    qed
    have rep: "replace_first m v (done @ m @ r') = done @ v @ r'"
      using pv by (simp add: replace_first_def ff get_substitution_plain plain_value_def)
    have inv': "\<forall>q<length (done @ v). \<not> marker_at (drop q ((done @ v) @ r'))"
    proof (intro allI impI notI)
      fix q assume q: "q < length (done @ v)" and ma: "marker_at (drop q ((done @ v) @ r'))"
      show False
      proof (cases "q < length done")
        case True
        then have "drop q done \<noteq> []" by simp
        moreover from ma True have "marker_at (drop q done @ v @ r')" by simp
        ultimately have "marker_at (drop q done @ (''${'' @ name @ ''}'') @ r')"
          using marker_at_swap [OF cl, of "drop q done" v r'] pv by (simp add: plain_value_def)
        then have "marker_at (drop q (done @ c # d # r))" using True rest by (simp add: m_def)
        with "3.prems"(2) True show False by blast
      next
        case False
        define j where "j = q - length done"
        from False q have j: "j < length v" by (simp add: j_def)
        from False q have "drop q ((done @ v) @ r') = drop j v @ r'" by (simp add: j_def)
        moreover from j obtain x xs where x: "drop j v = x # xs" by (cases "drop j v") auto
        moreover from x have "x \<in> set v" by (metis in_set_dropD list.set_intros(1))
        with pv have "x \<noteq> CHR ''$''" by (auto simp: plain_value_def)
        ultimately show False using ma by (simp add: marker_at_def split: list.splits)
      qed
    qed
    have good': "\<forall>m\<in>set (match_markers r'). \<exists>v. map_of env (marker_name m) = Some v \<and> plain_value v"
      using "3.prems"(1) mm by simp
    have "interpolate env (match_markers (c # d # r)) (done @ c # d # r)
        = interpolate env (m # match_markers r') (done @ m @ r')"
      using arg_cong [OF rest, of "\<lambda>s. done @ s"] by (simp only: mm)
    also have "\<dots> = interpolate env (match_markers r') (replace_first m v (done @ m @ r'))"
      using v pv by (simp add: mn plain_value_def process_env_def)
    also have "\<dots> = interpolate env (match_markers r') ((done @ v) @ r')" by (simp add: rep)
    also have "\<dots> = Inr ((done @ v) @ substitute_markers env r')"
    proof -
      have cdc: "c = CHR ''$'' \<and> d = CHR ''{''" using cd by simp
      show ?thesis
        unfolding r'_def
        by (rule "3.IH"(2) [OF cdc name]) (use good' inv' in \<open>simp_all add: r'_def\<close>)
    qed
    also have "substitute_markers env (c # d # r) = v @ substitute_markers env r'"
      using cd name v by (simp add: r'_def)
    then have "(done @ v) @ substitute_markers env r' = done @ substitute_markers env (c # d # r)"
      by simp
    finally show ?thesis .
  next
    case False
    then have mm: "match_markers (c # d # r) = match_markers (d # r)"
      and sub: "substitute_markers env (c # d # r) = c # substitute_markers env (d # r)"
      by (auto split: option.splits)
    have inv': "\<forall>q<length (done @ [c]). \<not> marker_at (drop q ((done @ [c]) @ d # r))"
    proof (intro allI impI)
      fix q assume "q < length (done @ [c])"
      then consider "q < length done" | "q = length done" by fastforce
      then show "\<not> marker_at (drop q ((done @ [c]) @ d # r))"
      proof cases
        case 1
        with "3.prems"(2) show ?thesis by simp
      next
        case 2
        with False show ?thesis by (simp add: marker_at_def)
      qed
    qed
    have good': "\<forall>m\<in>set (match_markers (d # r)). \<exists>v. map_of env (marker_name m) = Some v \<and> plain_value v"
      using "3.prems"(1) mm by simp
    have "interpolate env (match_markers (d # r)) ((done @ [c]) @ d # r)
        = Inr ((done @ [c]) @ substitute_markers env (d # r))"
    proof (cases "c = CHR ''$'' \<and> d = CHR ''{''")
      case True
      with False have "find_close r = None" by simp
      from "3.IH"(1) [OF True this good' inv'] show ?thesis .
    next
      case False
      from "3.IH"(3) [OF False good' inv'] show ?thesis .
    qed
    then have "interpolate env (match_markers (d # r)) (done @ c # d # r)
        = Inr (done @ c # substitute_markers env (d # r))"
      by simp
    then show ?thesis unfolding mm sub .
  qed
qed

lemma interpolate_fails:
  assumes "\<forall>m\<in>set ms. marker_name m \<notin> set object_prototype_names"
    and "\<exists>m\<in>set ms. map_of env (marker_name m) = None \<or> map_of env (marker_name m) = Some []"
  shows "\<exists>m\<in>set ms. (map_of env (marker_name m) = None \<or> map_of env (marker_name m) = Some [])
      \<and> interpolate env ms resolved = Inl (EnvNotSet (marker_name m))"
  using assms
proof (induction ms arbitrary: resolved)
  case Nil
  then show ?case by simp
next
  case (Cons m ms)
  show ?case
  proof (cases "map_of env (marker_name m) = None \<or> map_of env (marker_name m) = Some []")
    case True
    with Cons.prems(1) show ?thesis
      by (auto simp: process_env_variable process_env_unset)
  next
    case False
    then obtain v where v: "map_of env (marker_name m) = Some v" "v \<noteq> []" by auto
    with Cons.prems False have "\<exists>m\<in>set ms. map_of env (marker_name m) = None \<or> map_of env (marker_name m) = Some []"
      by auto
    moreover from Cons.prems(1) have "\<forall>m\<in>set ms. marker_name m \<notin> set object_prototype_names" by simp
    ultimately show ?thesis
      using Cons.IH [of "replace_first m v resolved"] v by (auto simp: process_env_variable)
  qed
qed

text \<open>What \<^verbatim>\<open>loadSecretFromFile\<close> does with the text it has read.\<close>

lemma loadSecretFromFile_after_read:
  assumes "interpolate env (match_markers p) p = Inr resolved" and "fs resolved = Some secret"
  shows "(trim secret = [] \<longrightarrow> fst (loadSecretFromFile env fs p req) = Inl EmptySecret)
    \<and> (\<forall>n. trim secret \<noteq> [] \<and> req = Some n \<and> n \<noteq> 0 \<and> int (length (trim secret)) \<noteq> n \<longrightarrow>
          fst (loadSecretFromFile env fs p req) = Inl (LengthMismatch n (length (trim secret))))
    \<and> (trim secret \<noteq> [] \<and> (req = None \<or> req = Some 0 \<or> req = Some (int (length (trim secret)))) \<longrightarrow>
          fst (loadSecretFromFile env fs p req) = Inr (trim secret))
    \<and> (\<exists>a b. secret = a @ trim secret @ b \<and> (\<forall>c\<in>set a. is_space c) \<and> (\<forall>c\<in>set b. is_space c))
    \<and> (trim secret \<noteq> [] \<longrightarrow> \<not> is_space (hd (trim secret)) \<and> \<not> is_space (last (trim secret)))"
proof -
  have "trim secret = [] \<longrightarrow> fst (loadSecretFromFile env fs p req) = Inl EmptySecret"
    using assms by (simp add: loadSecretFromFile_def)
  moreover have "\<forall>n. trim secret \<noteq> [] \<and> req = Some n \<and> n \<noteq> 0 \<and> int (length (trim secret)) \<noteq> n \<longrightarrow>
          fst (loadSecretFromFile env fs p req) = Inl (LengthMismatch n (length (trim secret)))"
    using assms by (simp add: loadSecretFromFile_def)
  moreover have "trim secret \<noteq> [] \<and> (req = None \<or> req = Some 0 \<or> req = Some (int (length (trim secret)))) \<longrightarrow>
          fst (loadSecretFromFile env fs p req) = Inr (trim secret)"
    using assms by (auto simp: loadSecretFromFile_def)
  ultimately show ?thesis using trim_decompose [of secret] trim_ends [of secret] by blast
qed

subsection \<open>Evaluation of the examples\<close>

lemmas schema_defs = headplaneConfig_def partialHeadplaneConfig_def serverConfig_def agentConfig_def
  agentDefault_def oidcConfig_def headscaleConfig_def integrationConfig_def dockerConfig_def
  kubernetesConfig_def procConfig_def containerLabel_def authMethod_def stringToBool_def
  partialServerConfig_def partialOidcConfig_def partialHeadscaleConfig_def
  partialIntegrationConfig_def

lemmas eval_defs = validate_def passes_def mismatch_def at_key_def undeclared_errors_def
  delete_undeclared_def get_prop_def field_def endsWith_slash_def example_lib_def validated_url_def

lemmas example_defs = minimal_doc_def minimal_server_def minimal_headscale_def secret32_def
  oidc_base_def doc_api_key_inline_def doc_api_key_path_def doc_unknown_docker_key_def
  doc_unknown_root_key_def oidc_client_id_fragment_def minimal_doc_validated_def
  doc_two_slashes_def

lemma minimal_doc_validates:
  "validate example_lib headplaneConfig (JObj minimal_doc) = Ok minimal_doc_validated"
  by (simp add: schema_defs eval_defs example_defs)

section \<open>The partial schema\<close>

text \<open>
  C1. The claim is that the partial schema accepts every override fragment made of a
  subset of the configuration's fields. The schema keeps \<open>debug\<close>, \<open>server\<close>,
  \<open>headscale\<close> and the boolean flags of the sections it is given as required keys: the
  fragment \<open>{oidc: {client_id: "abc"}}\<close>, which the single variable
  \<open>HEADPLANE_OIDC__CLIENT_ID=abc\<close> decodes to, is rejected with five missing keys.
\<close>

theorem partial_schema_rejects_oidc_fragment:
  "validate L partialHeadplaneConfig oidc_client_id_fragment =
     Errors
       [([''debug''], Missing), ([''server''], Missing),
        ([''oidc'', ''disable_api_key_login''], Missing),
        ([''oidc'', ''strict_validation''], Missing),
        ([''headscale''], Missing)]"
  by (simp add: schema_defs eval_defs example_defs)

section \<open>The deep merge\<close>

text \<open>
  C2, as amended. For a base and an override that are objects, \<open>deepMerge\<close> returns an
  object in which, key by key: an override value that is an object, an array or
  \<open>null\<close> is merged recursively into the base value, which replaces a base value that
  is absent or is itself none of the three, and otherwise gives a plain object with
  the own properties of the base value overlaid by those of the override value (the
  elements of an array by index); an override value that is a string, a number or a
  boolean overwrites the base value; a key whose override value is \<open>undefined\<close> and a
  key that only the base has keep the base value.
\<close>

theorem deepMerge_by_key:
  assumes "typeof_object target" and "typeof_object source"
    and "distinct (map fst (own_entries source))"
  shows "field (deepMerge target source) k =
     (case map_of (own_entries source) k of
        None \<Rightarrow> field target k
      | Some v \<Rightarrow>
          if v = JUndefined then field target k
          else if typeof_object v then deepMerge (field target k) v
          else v)
    \<and> (\<forall>b v. \<not> typeof_object b \<longrightarrow> deepMerge b v = v)
    \<and> (\<forall>b v. typeof_object b \<and> typeof_object v \<longrightarrow>
          deepMerge b v = JObj (merge_keys (own_entries b) (own_entries v)))"
proof -
  have "deepMerge target source = JObj (merge_keys (own_entries target) (own_entries source))"
    using assms(1,2) by (simp add: deepMerge.simps)
  then have "field (deepMerge target source) k =
      get_prop (merge_keys (own_entries target) (own_entries source)) k"
    by (simp add: field_def)
  also have "\<dots> = (case map_of (own_entries source) k of
        None \<Rightarrow> field target k
      | Some v \<Rightarrow>
          if v = JUndefined then field target k
          else if typeof_object v then deepMerge (field target k) v
          else v)"
    unfolding get_prop_def merge_keys_map_of [OF assms(3)] field_def
    by (simp add: get_prop_def split: option.splits)
  finally show ?thesis by (simp add: deepMerge.simps)
qed

theorem deepMerge_by_key_witness:
  "field (deepMerge merge_base merge_override) ''server''
     = JObj [(''port'', JNum (Fin 9000)), (''host'', JStr ''0.0.0.0'')]"
proof -
  have "typeof_object merge_base" and "typeof_object merge_override"
    and "distinct (map fst (own_entries merge_override))"
    by (simp_all add: merge_base_def merge_override_def)
  from deepMerge_by_key [OF this, of "''server''"] show ?thesis
    by (simp add: merge_base_def merge_override_def field_def get_prop_def deepMerge.simps)
qed

text \<open>
  The claim as stated fails where the override value is \<open>null\<close> or an array and the
  base value is one of the two or an object. A validated document whose
  \<open>server.cookie_secret\<close> is \<open>null\<close>, merged with a validated override whose
  \<open>server.cookie_secret\<close> is \<open>null\<close>, gets an empty object there; and an array merged
  onto an array gives an object with the elements merged by index.
\<close>

theorem deepMerge_null_and_array:
  "validate example_lib headplaneConfig doc_cookie_path = Ok doc_cookie_path
   \<and> validate example_lib partialHeadplaneConfig override_null_secret = Ok override_null_secret
   \<and> field (field doc_cookie_path ''server'') ''cookie_secret'' = JNull
   \<and> field (field override_null_secret ''server'') ''cookie_secret'' = JNull
   \<and> field (field (deepMerge doc_cookie_path override_null_secret) ''server'') ''cookie_secret''
       = JObj []
   \<and> deepMerge (JObj [(''a'', JArr [JStr ''x'', JStr ''y''])]) (JObj [(''a'', JArr [JStr ''z''])])
       = JObj [(''a'', JObj [(''0'', JStr ''z''), (''1'', JStr ''y'')])]"
  by (simp add: schema_defs eval_defs example_defs doc_cookie_path_def override_null_secret_def
      deepMerge.simps index_name.simps digit_char_def)

section \<open>The secret pairs\<close>

text \<open>
  C3. The claim is that, for each of the three pairs, a document with exactly one of
  the two set passes. For the API key given by path it does not. The schema declares
  \<open>headscale_api_key\<close> as a string, where the two other inline secrets are a string or
  \<open>null\<close>: a document that sets \<open>headscale_api_key_path\<close> has an error when the inline
  key is absent or \<open>null\<close>, and has both set when the inline key is a string, and then
  the piped function throws. So no document that sets \<open>oidc.headscale_api_key_path\<close>
  passes the full schema, although \<^verbatim>\<open>loadConfig\<close> has a step that loads the API key
  from that path.
\<close>

theorem api_key_path_never_passes:
  assumes "\<not> loose_null (field (field (JObj kv) ''oidc'') ''headscale_api_key_path'')"
  shows "\<not> passes (validate L headplaneConfig (JObj kv))"
proof
  assume p: "passes (validate L headplaneConfig (JObj kv))"
  then have chk: "check L headplaneConfig (JObj kv) = []"
    by (auto simp: passes_Ok validate_Ok_iff)
  from assms obtain ov where ov: "map_of kv ''oidc'' = Some ov"
    by (cases "map_of kv ''oidc''") (auto simp: field_def get_prop_def)
  then have f: "field (JObj kv) ''oidc'' = ov" by (simp add: field_def get_prop_def)
  from oidc_api_key_is_string [OF chk ov] obtain s where "field ov ''headscale_api_key'' = JStr s" ..
  moreover from p ov f have "loose_null (field ov ''headscale_api_key'')
      \<noteq> loose_null (field ov ''headscale_api_key_path'')"
    by (simp add: passes_headplaneConfig_iff)
  ultimately show False using assms f by simp
qed

text \<open>
  The documents that give the API key by path, with the inline key \<open>null\<close> and with the
  inline key absent, are rejected with an error at the inline key, and the document
  that gives both makes the piped function throw. The document that gives the client
  secret by path, with the inline secret \<open>null\<close>, passes, and so does the one that
  gives the API key inline.
\<close>

theorem api_key_path_never_passes_witness:
  "\<not> passes (validate example_lib headplaneConfig doc_api_key_null)
   \<and> validate example_lib headplaneConfig doc_api_key_null
       = Errors [([''oidc'', ''headscale_api_key''], WrongType)]
   \<and> validate example_lib headplaneConfig doc_api_key_path
       = Errors [([''oidc'', ''headscale_api_key''], Missing)]
   \<and> validate example_lib headplaneConfig doc_api_key_both
       = Throws ''Must specify either headscale_api_key or headscale_api_key_path, but not both''
   \<and> passes (validate example_lib headplaneConfig doc_client_secret_path)
   \<and> passes (validate example_lib headplaneConfig doc_api_key_inline)"
proof -
  have "\<not> loose_null (field (field doc_api_key_null ''oidc'') ''headscale_api_key_path'')"
    by (simp add: doc_api_key_null_def example_defs field_def get_prop_def)
  from api_key_path_never_passes [OF this [unfolded doc_api_key_null_def], of example_lib]
  have "\<not> passes (validate example_lib headplaneConfig doc_api_key_null)"
    by (simp add: doc_api_key_null_def)
  moreover have "validate example_lib headplaneConfig doc_api_key_null
       = Errors [([''oidc'', ''headscale_api_key''], WrongType)]"
    by code_simp
  moreover have "validate example_lib headplaneConfig doc_api_key_path
       = Errors [([''oidc'', ''headscale_api_key''], Missing)]"
    by code_simp
  moreover have "validate example_lib headplaneConfig doc_api_key_both
       = Throws ''Must specify either headscale_api_key or headscale_api_key_path, but not both''"
    by code_simp
  moreover have "passes (validate example_lib headplaneConfig doc_client_secret_path)"
    by code_simp
  moreover have "passes (validate example_lib headplaneConfig doc_api_key_inline)"
    by code_simp
  ultimately show ?thesis by blast
qed

section \<open>Undeclared keys\<close>

text \<open>
  C4. The claim is that an unknown key inside a sub-section is rejected and one at the
  document root is removed. The rule \<open>delete\<close> that the document schema applies deeply
  replaces the rule \<open>reject\<close> of the sub-sections: a document with an unknown key under
  \<open>integration.docker\<close> validates, the key silently removed, as does one with an
  unknown key under \<open>server\<close>, a section that sets no rule of its own, and one with an
  unknown key at the root.
\<close>

theorem unknown_docker_key_is_deleted:
  "validate example_lib headplaneConfig doc_unknown_docker_key =
     Ok (JObj
          (own_entries minimal_doc_validated
           @ [(''integration'',
                JObj [(''docker'',
                        JObj [(''enabled'', JBool True), (''container_name'', JStr ''headscale''),
                              (''socket'', JStr ''unix:///var/run/docker.sock'')])])]))
   \<and> validate example_lib headplaneConfig doc_unknown_server_key = Ok minimal_doc_validated
   \<and> validate example_lib headplaneConfig doc_unknown_root_key = Ok minimal_doc_validated"
  by (simp add: schema_defs eval_defs example_defs doc_unknown_server_key_def)

section \<open>The override object of the environment\<close>

text \<open>
  C5, as amended. The override object is built from exactly the entries of the
  environment that have a non-empty value, a key starting with \<open>HEADPLANE_\<close> and a key
  outside the root variables, in their order; removing the root variables from the
  environment does not change it. The path of such an entry is the split, at double
  underscores, of its key without the prefix and in lower case;
  \<open>HEADPLANE_OIDC__CLIENT_ID\<close> has the path \<open>oidc\<close>, \<open>client_id\<close>. Let no segment of a
  path but the last be a name that objects inherit. When no path is a proper prefix of
  the path of a later entry, the entries are assigned in turn: the object built holds,
  at every path, what these assignments leave there, the raw string of the latest
  entry with that path, an object above it, and nothing where no entry has written;
  so the value of an entry is at its path unless a later entry has a path at, above or
  below it.
  When the path of an entry is a proper prefix of the path of a later one, the later
  assignment meets a string where it needs an object and throws a \<open>TypeError\<close>, and
  no object is built.
\<close>

theorem env_override_object:
  "env_vars rootKeys env =
      filter (\<lambda>e. snd e \<noteq> [] \<and> startsWith (fst e) ''HEADPLANE_'' \<and> fst e \<notin> set rootKeys) env
   \<and> envConfig_of rootKeys (filter (\<lambda>e. fst e \<notin> set rootKeys) env) = envConfig_of rootKeys env
   \<and> (\<forall>e\<in>set (env_vars rootKeys env). \<forall>p.
         configPath (fst e) = p \<longleftrightarrow>
           splits_at_dunder (toLowerCase (drop (length ''HEADPLANE_'') (fst e))) p)
   \<and> configPath ''HEADPLANE_OIDC__CLIENT_ID'' = [''oidc'', ''client_id'']
   \<and> ((\<forall>e\<in>set (env_vars rootKeys env).
          \<forall>k\<in>set (butlast (configPath (fst e))). k \<notin> set object_prototype_names) \<longrightarrow>
        (if no_earlier_prefix (map (\<lambda>e. configPath (fst e)) (env_vars rootKeys env))
         then \<exists>envConfig. envConfig_of rootKeys env = Inr envConfig
                \<and> (\<forall>p. slot_at (JObj envConfig) p
                          = written (rev (map path_entry (env_vars rootKeys env))) p)
                \<and> (\<forall>xs e ys. env_vars rootKeys env = xs @ e # ys
                       \<and> (\<forall>e'\<in>set ys. \<not> prefix (configPath (fst e')) (configPath (fst e))
                                       \<and> \<not> prefix (configPath (fst e)) (configPath (fst e'))) \<longrightarrow>
                     slot_at (JObj envConfig) (configPath (fst e)) = Text (snd e))
         else envConfig_of rootKeys env = Inl TypeError))"
proof (intro conjI impI)
  show "env_vars rootKeys env =
      filter (\<lambda>e. snd e \<noteq> [] \<and> startsWith (fst e) ''HEADPLANE_'' \<and> fst e \<notin> set rootKeys) env"
    by (simp add: env_vars_def)
  show "envConfig_of rootKeys (filter (\<lambda>e. fst e \<notin> set rootKeys) env) = envConfig_of rootKeys env"
    by (simp add: envConfig_of_def env_vars_drop_root)
  show "\<forall>e\<in>set (env_vars rootKeys env). \<forall>p.
         configPath (fst e) = p \<longleftrightarrow>
           splits_at_dunder (toLowerCase (drop (length ''HEADPLANE_'') (fst e))) p"
    using configPath_iff by (auto simp: env_vars_set)
  show "configPath ''HEADPLANE_OIDC__CLIENT_ID'' = [''oidc'', ''client_id'']"
    by (rule configPath_example)
next
  assume "\<forall>e\<in>set (env_vars rootKeys env).
          \<forall>k\<in>set (butlast (configPath (fst e))). k \<notin> set object_prototype_names"
  then show "if no_earlier_prefix (map (\<lambda>e. configPath (fst e)) (env_vars rootKeys env))
         then \<exists>envConfig. envConfig_of rootKeys env = Inr envConfig
                \<and> (\<forall>p. slot_at (JObj envConfig) p
                          = written (rev (map path_entry (env_vars rootKeys env))) p)
                \<and> (\<forall>xs e ys. env_vars rootKeys env = xs @ e # ys
                       \<and> (\<forall>e'\<in>set ys. \<not> prefix (configPath (fst e')) (configPath (fst e))
                                       \<and> \<not> prefix (configPath (fst e)) (configPath (fst e'))) \<longrightarrow>
                     slot_at (JObj envConfig) (configPath (fst e)) = Text (snd e))
         else envConfig_of rootKeys env = Inl TypeError"
    by (rule envConfig_of_entries)
qed

theorem env_override_object_witness:
  "env_vars example_rootKeys override_env =
     [(''HEADPLANE_OIDC__CLIENT_ID'', ''abc''), (''HEADPLANE_SERVER__PORT'', ''9000''),
      (''HEADPLANE_oidc__client_id'', ''xyz'')]
   \<and> envConfig_of example_rootKeys override_env =
       Inr [(''oidc'', JObj [(''client_id'', JStr ''xyz'')]), (''server'', JObj [(''port'', JStr ''9000'')])]
   \<and> slot_at (JObj [(''oidc'', JObj [(''client_id'', JStr ''xyz'')]),
                     (''server'', JObj [(''port'', JStr ''9000'')])]) [''server'', ''port'']
       = written (rev (map path_entry (env_vars example_rootKeys override_env))) [''server'', ''port'']
   \<and> written (rev (map path_entry (env_vars example_rootKeys override_env))) [''server'', ''port'']
       = Text ''9000''
   \<and> written (rev (map path_entry (env_vars example_rootKeys override_env))) [''oidc'', ''client_id'']
       = Text ''xyz''
   \<and> written (rev (map path_entry (env_vars example_rootKeys override_env))) [''oidc''] = Node
   \<and> written (rev (map path_entry (env_vars example_rootKeys override_env))) [''debug''] = Absent"
proof -
  have vars: "env_vars example_rootKeys override_env =
     [(''HEADPLANE_OIDC__CLIENT_ID'', ''abc''), (''HEADPLANE_SERVER__PORT'', ''9000''),
      (''HEADPLANE_oidc__client_id'', ''xyz'')]"
    by code_simp
  have cfg: "envConfig_of example_rootKeys override_env =
       Inr [(''oidc'', JObj [(''client_id'', JStr ''xyz'')]), (''server'', JObj [(''port'', JStr ''9000'')])]"
    by code_simp
  have names: "\<forall>e\<in>set (env_vars example_rootKeys override_env).
          \<forall>k\<in>set (butlast (configPath (fst e))). k \<notin> set object_prototype_names"
    unfolding vars by code_simp
  have order: "no_earlier_prefix (map (\<lambda>e. configPath (fst e)) (env_vars example_rootKeys override_env))"
    unfolding vars by code_simp
  from env_override_object [of example_rootKeys override_env]
  have "(\<forall>e\<in>set (env_vars example_rootKeys override_env).
          \<forall>k\<in>set (butlast (configPath (fst e))). k \<notin> set object_prototype_names) \<longrightarrow>
        (if no_earlier_prefix (map (\<lambda>e. configPath (fst e)) (env_vars example_rootKeys override_env))
         then \<exists>envConfig. envConfig_of example_rootKeys override_env = Inr envConfig
                \<and> (\<forall>p. slot_at (JObj envConfig) p
                          = written (rev (map path_entry (env_vars example_rootKeys override_env))) p)
                \<and> (\<forall>xs e ys. env_vars example_rootKeys override_env = xs @ e # ys
                       \<and> (\<forall>e'\<in>set ys. \<not> prefix (configPath (fst e')) (configPath (fst e))
                                       \<and> \<not> prefix (configPath (fst e)) (configPath (fst e'))) \<longrightarrow>
                     slot_at (JObj envConfig) (configPath (fst e)) = Text (snd e))
         else envConfig_of example_rootKeys override_env = Inl TypeError)"
    by (elim conjE)
  with names order
  have "\<exists>envConfig. envConfig_of example_rootKeys override_env = Inr envConfig
          \<and> (\<forall>p. slot_at (JObj envConfig) p
                    = written (rev (map path_entry (env_vars example_rootKeys override_env))) p)"
    by (simp only: if_True) blast
  with cfg have slots: "slot_at (JObj [(''oidc'', JObj [(''client_id'', JStr ''xyz'')]),
                     (''server'', JObj [(''port'', JStr ''9000'')])]) p
       = written (rev (map path_entry (env_vars example_rootKeys override_env))) p" for p
    by auto
  have "written (rev (map path_entry (env_vars example_rootKeys override_env))) [''server'', ''port'']
       = Text ''9000''"
    "written (rev (map path_entry (env_vars example_rootKeys override_env))) [''oidc'', ''client_id'']
       = Text ''xyz''"
    "written (rev (map path_entry (env_vars example_rootKeys override_env))) [''oidc''] = Node"
    "written (rev (map path_entry (env_vars example_rootKeys override_env))) [''debug''] = Absent"
    unfolding vars by code_simp+
  with vars cfg slots [of "[''server'', ''port'']"] show ?thesis by simp
qed

text \<open>
  The claim as stated fails where an entry has stored a string at a proper prefix of
  the path of a later entry: both variables of the first environment below pass the
  filter, and the second assignment throws instead of storing its value. It also
  fails for a variable whose path starts with \<open>constructor\<close>: nothing is stored at its
  path in the override object, the walk having gone into the function \<open>Object\<close>.
\<close>

theorem clashing_variables_throw:
  "env_vars example_rootKeys clashing_env = clashing_env
   \<and> configPath ''HEADPLANE_SERVER'' = [''server'']
   \<and> configPath ''HEADPLANE_SERVER__PORT'' = [''server'', ''port'']
   \<and> envConfig_of example_rootKeys clashing_env = Inl TypeError
   \<and> env_vars example_rootKeys builtin_env = builtin_env
   \<and> configPath ''HEADPLANE_CONSTRUCTOR__X'' = [''constructor'', ''x'']
   \<and> envConfig_of example_rootKeys builtin_env = Inl (IntoBuiltin ''constructor'')"
  by code_simp

section \<open>Interpolation of the secret path\<close>

text \<open>
  C6, as amended. A marker is a match of the pattern, \<open>${NAME}\<close>. For every secret path
  with a marker whose variable is unset or empty, and with no marker whose name is one
  that objects inherit, the resolver fails, reporting such a variable, and reads no
  file. When every variable of a marker is set to a value that is not empty and has no
  dollar sign and no brace, the path that is read is the path with every marker
  replaced by the value of its variable.
\<close>

theorem secret_path_interpolation:
  "(\<forall>m\<in>set (match_markers p). m = ''${'' @ marker_name m @ ''}'')
   \<and> ((\<forall>m\<in>set (match_markers p). marker_name m \<notin> set object_prototype_names)
        \<and> (\<exists>m\<in>set (match_markers p).
          map_of env (marker_name m) = None \<or> map_of env (marker_name m) = Some []) \<longrightarrow>
       (\<exists>m\<in>set (match_markers p).
          (map_of env (marker_name m) = None \<or> map_of env (marker_name m) = Some [])
          \<and> loadSecretFromFile env fs p req = (Inl (EnvNotSet (marker_name m)), [])))
   \<and> ((\<forall>m\<in>set (match_markers p). \<exists>v. map_of env (marker_name m) = Some v \<and> plain_value v) \<longrightarrow>
       interpolate env (match_markers p) p = Inr (substitute_markers env p)
       \<and> snd (loadSecretFromFile env fs p req) = [substitute_markers env p])"
proof (intro conjI impI)
  show "\<forall>m\<in>set (match_markers p). m = ''${'' @ marker_name m @ ''}''"
    using match_markers_shape by blast
next
  assume a: "(\<forall>m\<in>set (match_markers p). marker_name m \<notin> set object_prototype_names)
      \<and> (\<exists>m\<in>set (match_markers p).
      map_of env (marker_name m) = None \<or> map_of env (marker_name m) = Some [])"
  from interpolate_fails [OF conjunct1 [OF a] conjunct2 [OF a], of p] obtain m where
    m: "m \<in> set (match_markers p)"
      "map_of env (marker_name m) = None \<or> map_of env (marker_name m) = Some []"
      "interpolate env (match_markers p) p = Inl (EnvNotSet (marker_name m))"
    by blast
  from m(3) have "loadSecretFromFile env fs p req = (Inl (EnvNotSet (marker_name m)), [])"
    by (simp add: loadSecretFromFile_def)
  with m(1,2) show "\<exists>m\<in>set (match_markers p).
          (map_of env (marker_name m) = None \<or> map_of env (marker_name m) = Some [])
          \<and> loadSecretFromFile env fs p req = (Inl (EnvNotSet (marker_name m)), [])"
    by blast
next
  assume good: "\<forall>m\<in>set (match_markers p). \<exists>v. map_of env (marker_name m) = Some v \<and> plain_value v"
  from interpolate_invariant [of p env "[]"] good
  show i: "interpolate env (match_markers p) p = Inr (substitute_markers env p)" by simp
  then show "snd (loadSecretFromFile env fs p req) = [substitute_markers env p]"
    by (auto simp: loadSecretFromFile_def split: option.splits)
qed

theorem secret_path_interpolation_witness:
  "snd (loadSecretFromFile [(''FOO'', ''/etc'')] (one_file ''/etc/secret.txt'' ''s3cret'')
          ''${FOO}/secret.txt'' None) = [''/etc/secret.txt'']
   \<and> loadSecretFromFile [] (one_file ''/etc/secret.txt'' ''s3cret'') ''${FOO}/secret.txt'' None
       = (Inl (EnvNotSet ''FOO''), [])"
proof -
  have mm: "match_markers ''${FOO}/secret.txt'' = [''${FOO}'']" by code_simp
  have mn: "marker_name ''${FOO}'' = ''FOO''" by code_simp
  have sub: "substitute_markers [(''FOO'', ''/etc'')] ''${FOO}/secret.txt'' = ''/etc/secret.txt''"
    by code_simp
  have pv: "plain_value ''/etc''" by code_simp
  have nm: "''FOO'' \<notin> set object_prototype_names" by code_simp
  have set: "\<forall>m\<in>set (match_markers ''${FOO}/secret.txt'').
      \<exists>v. map_of [(''FOO'', ''/etc'')] (marker_name m) = Some v \<and> plain_value v"
    unfolding mm using pv by (simp add: mn)
  have unset: "(\<forall>m\<in>set (match_markers ''${FOO}/secret.txt''). marker_name m \<notin> set object_prototype_names)
      \<and> (\<exists>m\<in>set (match_markers ''${FOO}/secret.txt'').
      map_of [] (marker_name m) = None \<or> map_of [] (marker_name m) = Some [])"
    unfolding mm using nm by (simp add: mn)
  from secret_path_interpolation [of "''${FOO}/secret.txt''" "[(''FOO'', ''/etc'')]"
      "one_file ''/etc/secret.txt'' ''s3cret''" None] set
  have "snd (loadSecretFromFile [(''FOO'', ''/etc'')] (one_file ''/etc/secret.txt'' ''s3cret'')
          ''${FOO}/secret.txt'' None) = [substitute_markers [(''FOO'', ''/etc'')] ''${FOO}/secret.txt'']"
    by blast
  then have 1: "snd (loadSecretFromFile [(''FOO'', ''/etc'')] (one_file ''/etc/secret.txt'' ''s3cret'')
          ''${FOO}/secret.txt'' None) = [''/etc/secret.txt'']"
    unfolding sub .
  from secret_path_interpolation [of "''${FOO}/secret.txt''" "[]"
      "one_file ''/etc/secret.txt'' ''s3cret''" None] unset
  have "\<exists>m\<in>set (match_markers ''${FOO}/secret.txt'').
      loadSecretFromFile [] (one_file ''/etc/secret.txt'' ''s3cret'') ''${FOO}/secret.txt'' None
        = (Inl (EnvNotSet (marker_name m)), [])"
    by blast
  then have 2: "loadSecretFromFile [] (one_file ''/etc/secret.txt'' ''s3cret'') ''${FOO}/secret.txt'' None
       = (Inl (EnvNotSet ''FOO''), [])"
    unfolding mm by (simp add: mn)
  from 1 2 show ?thesis by simp
qed

text \<open>
  The claim as stated fails for a variable that is set to the empty string, which the
  resolver reports as not set. It also fails for values with a dollar sign, which
  \<open>replace\<close> reads as a replacement pattern: with \<open>FOO\<close> set to \<open>/mnt/$$x\<close> the path read
  has \<open>/mnt/$x\<close> in the place of the marker. And it fails for the marker
  \<open>${toString}\<close> when no variable has that name: the resolver does not report a
  missing variable but reads the file \<^verbatim>\<open>[object Undefined]/s\<close>.
\<close>

theorem empty_value_counts_as_unset:
  "match_markers ''${FOO}/secret.txt'' = [''${FOO}'']
   \<and> map_of [(''FOO'', '''')] (marker_name ''${FOO}'') = Some (''''::string)
   \<and> loadSecretFromFile [(''FOO'', '''')] (one_file ''/secret.txt'' ''s3cret'') ''${FOO}/secret.txt'' None
       = (Inl (EnvNotSet ''FOO''), [])
   \<and> map_of [(''FOO'', ''/mnt/$$x'')] (marker_name ''${FOO}'') = Some ''/mnt/$$x''
   \<and> snd (loadSecretFromFile [(''FOO'', ''/mnt/$$x'')] (one_file ''/mnt/$$x/secret.txt'' ''s3cret'')
          ''${FOO}/secret.txt'' None) = [''/mnt/$x/secret.txt'']
   \<and> substitute_markers [(''FOO'', ''/mnt/$$x'')] ''${FOO}/secret.txt'' = ''/mnt/$$x/secret.txt''
   \<and> match_markers ''${toString}/s'' = [''${toString}'']
   \<and> map_of [] (marker_name ''${toString}'') = (None :: string option)
   \<and> loadSecretFromFile [] (one_file ''[object Undefined]/s'' ''s3cret'') ''${toString}/s'' None
       = (Inr ''s3cret'', [''[object Undefined]/s''])"
  by code_simp

section \<open>The secret read from a file\<close>


section \<open>Loading without environment overrides\<close>

text \<open>
  C8. When \<open>loadEnv\<close> is false, \<open>loadConfig\<close> returns what the stages up to the secret
  resolution return, with their effects only: no \<^verbatim>\<open>.env\<close> file is loaded, the
  environment is not listed for overrides, and the result does not depend on the
  environment that loading the \<^verbatim>\<open>.env\<close> file would give or on the root variables.
\<close>

theorem loadConfig_without_overrides:
  assumes "\<not> loadEnv opts"
  shows "loadConfig L rootKeys w opts = load_and_resolve L w (path opts)
    \<and> LoadDotenv \<notin> set (snd (loadConfig L rootKeys w opts))
    \<and> ListEnvironment \<notin> set (snd (loadConfig L rootKeys w opts))
    \<and> loadConfig L rootKeys' (w\<lparr>dotenv_environ := e\<rparr>) opts = loadConfig L rootKeys w opts"
proof -
  have eq: "loadConfig L rk w' opts = load_and_resolve L w' (path opts)" for rk w'
    using assms by (cases "load_and_resolve L w' (path opts)")
      (auto simp: loadConfig_def and_then_def split: outcome.splits)
  have same: "load_and_resolve L (w\<lparr>dotenv_environ := e\<rparr>) p = load_and_resolve L w p" for p
    by (simp add: load_and_resolve_def stages_ignore_dotenv Let_def
        cong: validation.case_cong if_cong)
  from load_and_resolve_events [of L w "path opts"]
  have "LoadDotenv \<notin> set (snd (load_and_resolve L w (path opts)))"
    and "ListEnvironment \<notin> set (snd (load_and_resolve L w (path opts)))"
    by auto
  with eq same show ?thesis by simp
qed

theorem loadConfig_without_overrides_witness:
  "loadConfig example_lib example_rootKeys example_world without_overrides
     = (Returned minimal_doc_validated,
        [Access ''/etc/headplane/config.yaml'', ReadFile ''/etc/headplane/config.yaml''])"
proof -
  have "\<not> loadEnv without_overrides" by (simp add: without_overrides_def)
  from loadConfig_without_overrides [OF this, of example_lib example_rootKeys example_world]
  have "loadConfig example_lib example_rootKeys example_world without_overrides
      = load_and_resolve example_lib example_world (path without_overrides)"
    by simp
  also have "\<dots> = (Returned minimal_doc_validated,
        [Access ''/etc/headplane/config.yaml'', ReadFile ''/etc/headplane/config.yaml''])"
    using minimal_doc_validates
    by (simp add: load_and_resolve_def without_overrides_def example_world_def validateConfigPath_def
        loadConfigFile_def one_file_def validateConfig_def minimal_doc_def and_then_def
        resolve_secret_def field_def get_prop_def minimal_doc_validated_def agentDefault_def)
  finally show ?thesis .
qed

section \<open>Normalisation of the control-plane URL\<close>

text \<open>
  C9, as amended. The full schema removes exactly one trailing slash from
  \<open>headscale.url\<close>: the validated value is the URL without its last character when the
  URL ends in a slash, and the URL itself otherwise. A URL without a trailing slash
  is returned unchanged, and a URL that ends in exactly one slash has none after
  validation.
\<close>

theorem headscale_url_loses_one_slash:
  assumes "validate L headplaneConfig (JObj kv) = Ok out"
    and "field (field (JObj kv) ''headscale'') ''url'' = JStr u"
  shows "field (field out ''headscale'') ''url'' = JStr (if endsWith_slash u then butlast u else u)
    \<and> (\<not> endsWith_slash u \<longrightarrow> field (field out ''headscale'') ''url'' = JStr u)
    \<and> (endsWith_slash u \<and> \<not> endsWith_slash (butlast u) \<longrightarrow>
          (\<exists>u'. field (field out ''headscale'') ''url'' = JStr u' \<and> \<not> endsWith_slash u'))"
proof -
  from assms(2) obtain h where h: "map_of kv ''headscale'' = Some h" and u: "field h ''url'' = JStr u"
    by (cases "map_of kv ''headscale''") (auto simp: field_def get_prop_def)
  from document_sections [OF assms(1) _ h, of Required "onDeepUndeclaredKey Delete headscaleConfig"]
  obtain h' where "check L (onDeepUndeclaredKey Delete headscaleConfig) h = []"
    and "morph L (onDeepUndeclaredKey Delete headscaleConfig) h = Inr h'"
    and "field out ''headscale'' = h'"
    by auto
  with headscale_section [OF _ _ u] have "field (field out ''headscale'') ''url'' = strip_slash (JStr u)"
    by simp
  then show ?thesis by simp
qed

theorem headscale_url_loses_one_slash_witness:
  "field (field minimal_doc_validated ''headscale'') ''url'' = JStr ''https://example.com''"
proof -
  have "field (field (JObj minimal_doc) ''headscale'') ''url'' = JStr ''https://example.com/''"
    by (simp add: eval_defs example_defs)
  from headscale_url_loses_one_slash [OF minimal_doc_validates this]
  show ?thesis by (simp add: endsWith_slash_def)
qed

text \<open>
  The claim as stated fails for a URL that ends in more than one slash: the validated
  value of \<open>https://example.com//\<close> is \<open>https://example.com/\<close>, which still ends in one.
\<close>

theorem url_with_two_slashes_keeps_one:
  "string_url example_lib ''https://example.com//''
   \<and> validated_url (validate example_lib headplaneConfig doc_two_slashes)
       = JStr ''https://example.com/''
   \<and> endsWith_slash ''https://example.com/''"
  by (simp add: schema_defs eval_defs example_defs)

section \<open>String-or-boolean coercion\<close>

text \<open>
  C10. The coercion \<open>stringToBool\<close>, the type of every boolean field of the schemas,
  accepts exactly strings and booleans. It yields \<open>true\<close> exactly for the non-empty
  strings (the string "false" among them) and the boolean \<open>true\<close>, and \<open>false\<close> exactly
  for the empty string and the boolean \<open>false\<close>. In a document, a \<open>cookie_secure\<close> of
  "false" is validated to \<open>true\<close> and a \<open>config_strict\<close> of "" to \<open>false\<close>.
\<close>

theorem stringToBool_truthiness:
  "validate L stringToBool (JStr ''false'') = Ok (JBool True)
   \<and> (validate L stringToBool v = Ok (JBool True)
        \<longleftrightarrow> (\<exists>s. v = JStr s \<and> s \<noteq> []) \<or> v = JBool True)
   \<and> (validate L stringToBool v = Ok (JBool False) \<longleftrightarrow> v = JStr [] \<or> v = JBool False)
   \<and> ((\<exists>b. validate L stringToBool v = Ok (JBool b)) \<longleftrightarrow> (\<exists>s. v = JStr s) \<or> (\<exists>b. v = JBool b))
   \<and> validate example_lib headplaneConfig doc_string_flags = Ok doc_string_flags_validated"
proof -
  have "validate example_lib headplaneConfig doc_string_flags = Ok doc_string_flags_validated"
    by (simp add: schema_defs eval_defs example_defs doc_string_flags_def
        doc_string_flags_validated_def)
  moreover have "validate L stringToBool (JStr ''false'') = Ok (JBool True)"
    by (simp add: validate_def stringToBool_def mismatch_def)
  moreover have "validate L stringToBool v = Ok (JBool True)
        \<longleftrightarrow> (\<exists>s. v = JStr s \<and> s \<noteq> []) \<or> v = JBool True"
    by (cases v) (auto simp: validate_def stringToBool_def mismatch_def)
  moreover have "validate L stringToBool v = Ok (JBool False) \<longleftrightarrow> v = JStr [] \<or> v = JBool False"
    by (cases v) (auto simp: validate_def stringToBool_def mismatch_def)
  moreover have "(\<exists>b. validate L stringToBool v = Ok (JBool b)) \<longleftrightarrow> (\<exists>s. v = JStr s) \<or> (\<exists>b. v = JBool b)"
    by (cases v) (auto simp: validate_def stringToBool_def mismatch_def)
  ultimately show ?thesis by blast
qed

end
